theory Spec2Isabelle
  imports Main "HOL-Library.AList"
begin

unbundle bit_operations_syntax

section \<open>The caching device-memory allocator of faster-rwkv\<close>

text \<open>
  A shallow embedding of \<^verbatim>\<open>CachingAllocator\<close> (the binned arena allocator of the CUDA
  backend). Values of type \<^verbatim>\<open>size_t\<close> and addresses (\<^verbatim>\<open>char*\<close>) are natural numbers
  below \<open>2 ^ 64\<close>; every arithmetic operation of the source that can leave that range
  is written with its wrap-around (\<open>mod 2 ^ 64\<close>). The null pointer is address \<open>0\<close>.
  A \<^verbatim>\<open>Piece*\<close> is the index of the descriptor in \<^verbatim>\<open>pieces_\<close> (descriptors are never
  moved or deleted), \<^verbatim>\<open>nullptr\<close> is \<open>None\<close>.
\<close>

subsection \<open>Outcomes\<close>

text \<open>
  \<open>CheckFailed\<close>: an \<^verbatim>\<open>RV_CHECK\<close> / \<^verbatim>\<open>CHECK_EQ\<close> whose condition is false.
  \<open>OutOfRange\<close>: \<^verbatim>\<open>std::vector::at\<close> with an index outside the vector.
  \<open>InvalidDeref\<close>: dereferencing an end iterator or a null pointer, which the source
  does without any check (undefined behaviour in C++).
  \<open>Diverges\<close>: a \<^verbatim>\<open>while\<close> loop that has not ended when the fuel of the model ran out.
\<close>

datatype error = CheckFailed | OutOfRange | InvalidDeref | Diverges

definition bind_e :: "error + 'a \<Rightarrow> ('a \<Rightarrow> error + 'b) \<Rightarrow> error + 'b" where
  "bind_e m k = (case m of Inl e \<Rightarrow> Inl e | Inr a \<Rightarrow> k a)"

text \<open>Modelled from the spec: the macro \<^verbatim>\<open>RV_CHECK\<close> is declared outside the source files
  at hand; a violated check "must fail fast (abort or explicit panic-equivalent)".\<close>

definition RV_CHECK :: "bool \<Rightarrow> (error + 'a) \<Rightarrow> error + 'a" where
  "RV_CHECK c k = (if c then k else Inl CheckFailed)"

subsection \<open>Sizes and size classes\<close>

definition wrap64 :: "nat \<Rightarrow> nat" where
  "wrap64 n = n mod 2 ^ 64"

text \<open>Modelled from the spec: \<^verbatim>\<open>kAlignSize\<close> is declared in a header outside the source
  files at hand; the spec gives the alignment unit as 512 bytes (and the source shifts by 9).\<close>

definition kAlignSize :: nat where
  "kAlignSize = 512"

definition kCudaAlignSize :: nat where
  "kCudaAlignSize = 512"

definition kInvalidBinNum :: int where
  "kInvalidBinNum = - 1"

definition kBinNumSize :: int where
  "kBinNumSize = 20"

definition kPieceSplitThreshold :: nat where
  "kPieceSplitThreshold = push_bit 20 128"

definition RoundUp :: "nat \<Rightarrow> nat \<Rightarrow> nat" where
  "RoundUp n val = wrap64 (wrap64 (n + val - 1) div val * val)"

definition MemAlignedBytes :: "nat \<Rightarrow> nat \<Rightarrow> nat" where
  "MemAlignedBytes bytes alignment = RoundUp bytes alignment"

definition IsAlignedSize :: "nat \<Rightarrow> nat \<Rightarrow> bool" where
  "IsAlignedSize sz alignment = (sz mod alignment = 0)"

text \<open>\<^verbatim>\<open>__builtin_clzll\<close>: the number of leading zero bits of a 64-bit value (the
  compiler leaves it undefined at 0, where the source never calls it).\<close>

fun bit_length :: "nat \<Rightarrow> nat" where
  "bit_length n = (if n = 0 then 0 else Suc (bit_length (n div 2)))"

declare bit_length.simps [simp del]

definition clzll :: "nat \<Rightarrow> nat" where
  "clzll v = 64 - bit_length v"

definition BinSize4BinNum :: "int \<Rightarrow> nat" where
  "BinSize4BinNum bin_num = wrap64 (push_bit (nat bin_num) kAlignSize)"

definition BinNum4BinSize :: "nat \<Rightarrow> int" where
  "BinNum4BinSize sz =
     (let v = drop_bit 9 (max sz kAlignSize)
      in min (kBinNumSize - 1) (int (63 XOR clzll v)))"

subsection \<open>Pieces, bins, blocks and the allocator state\<close>

record Piece =
  size_piece :: nat
  ptr :: nat
  is_free :: bool
  prev :: "nat option"
  "next" :: "nat option"
  bin_num :: int

text \<open>A descriptor as \<^verbatim>\<open>new Piece()\<close> leaves it (the default member initialisers).\<close>

definition new_Piece :: Piece where
  "new_Piece = \<lparr>size_piece = 0, ptr = 0, is_free = False, prev = None, next = None,
     bin_num = kInvalidBinNum\<rparr>"

text \<open>\<^verbatim>\<open>std::set<Piece*, PieceCmp>\<close> is the list of its elements in the order of the
  comparator.\<close>

record Bin =
  size_bin :: nat
  pieces_bin :: "nat list"

record Block =
  size_block :: nat
  ptr_block :: nat
  start_piece :: "nat option"

text \<open>The two \<^verbatim>\<open>unordered_map\<close>s are association lists with one entry per key
  (a new entry goes to the front; the iteration order of the source is unspecified).\<close>

record CachingAllocator =
  alignment :: nat
  total_memory_bytes :: nat
  mem_ptr2block :: "(nat \<times> Block) list"
  bins :: "Bin list"
  pieces :: "Piece list"
  ptr2piece :: "(nat \<times> nat) list"
  recycle_piece_list :: "nat option"

definition CachingAllocator_init :: CachingAllocator where
  "CachingAllocator_init =
     \<lparr>alignment = kCudaAlignSize, total_memory_bytes = 0, mem_ptr2block = [],
      bins = map (\<lambda>i. \<lparr>size_bin = BinSize4BinNum (int i), pieces_bin = []\<rparr>) [0 ..< nat kBinNumSize],
      pieces = [], ptr2piece = [], recycle_piece_list = None\<rparr>"

text \<open>Assignment through a \<^verbatim>\<open>Piece*\<close>.\<close>

definition upd :: "CachingAllocator \<Rightarrow> nat \<Rightarrow> (Piece \<Rightarrow> Piece) \<Rightarrow> CachingAllocator" where
  "upd s p f = s\<lparr>pieces := (pieces s)[p := f (pieces s ! p)]\<rparr>"

definition PieceCmp :: "Piece list \<Rightarrow> nat \<Rightarrow> nat \<Rightarrow> bool" where
  "PieceCmp ps lhs rhs =
     (if size_piece (ps ! lhs) \<noteq> size_piece (ps ! rhs)
      then size_piece (ps ! lhs) < size_piece (ps ! rhs)
      else ptr (ps ! lhs) < ptr (ps ! rhs))"

text \<open>\<^verbatim>\<open>std::set::insert\<close>: \<open>None\<close> when an equivalent element is there already
  (\<^verbatim>\<open>.second\<close> is false). \<^verbatim>\<open>std::set::erase(key)\<close> removes the element equivalent
  to the key.\<close>

fun set_insert :: "('a \<Rightarrow> 'a \<Rightarrow> bool) \<Rightarrow> 'a \<Rightarrow> 'a list \<Rightarrow> 'a list option" where
  "set_insert lt x [] = Some [x]"
| "set_insert lt x (y # ys) =
     (if lt x y then Some (x # y # ys)
      else if lt y x then map_option ((#) y) (set_insert lt x ys)
      else None)"

definition set_erase :: "('a \<Rightarrow> 'a \<Rightarrow> bool) \<Rightarrow> 'a \<Rightarrow> 'a list \<Rightarrow> 'a list" where
  "set_erase lt x ys = filter (\<lambda>y. lt y x \<or> lt x y) ys"

definition bins_at :: "Bin list \<Rightarrow> int \<Rightarrow> error + Bin" where
  "bins_at bs i = (if 0 \<le> i \<and> nat i < length bs then Inr (bs ! nat i) else Inl OutOfRange)"

subsection \<open>The private operations\<close>

definition InsertPiece2Bin :: "CachingAllocator \<Rightarrow> nat \<Rightarrow> error + CachingAllocator" where
  "InsertPiece2Bin s piece =
     RV_CHECK (is_free (pieces s ! piece) \<and> bin_num (pieces s ! piece) = kInvalidBinNum)
       (let bn = BinNum4BinSize (size_piece (pieces s ! piece));
            s1 = upd s piece (\<lambda>p. p\<lparr>bin_num := bn\<rparr>)
        in bind_e (bins_at (bins s1) bn) (\<lambda>b.
             case set_insert (PieceCmp (pieces s1)) piece (pieces_bin b) of
               None \<Rightarrow> Inl CheckFailed
             | Some ps \<Rightarrow> Inr (s1\<lparr>bins := (bins s1)[nat bn := b\<lparr>pieces_bin := ps\<rparr>]\<rparr>)))"

definition RemovePieceFromBin :: "CachingAllocator \<Rightarrow> nat \<Rightarrow> error + CachingAllocator" where
  "RemovePieceFromBin s piece =
     RV_CHECK (is_free (pieces s ! piece))
       (let bn = bin_num (pieces s ! piece)
        in bind_e (bins_at (bins s) bn) (\<lambda>b.
             let s1 = s\<lparr>bins := (bins s)[nat bn :=
                          b\<lparr>pieces_bin := set_erase (PieceCmp (pieces s)) piece (pieces_bin b)\<rparr>]\<rparr>
             in Inr (upd s1 piece (\<lambda>p. p\<lparr>bin_num := kInvalidBinNum\<rparr>))))"

definition AllocatePiece :: "CachingAllocator \<Rightarrow> CachingAllocator \<times> nat" where
  "AllocatePiece s =
     (case recycle_piece_list s of
        Some ret \<Rightarrow> (s\<lparr>recycle_piece_list := next (pieces s ! ret)\<rparr>, ret)
      | None \<Rightarrow> (s\<lparr>pieces := pieces s @ [new_Piece]\<rparr>, length (pieces s)))"

definition DeallocatePiece :: "CachingAllocator \<Rightarrow> nat \<Rightarrow> CachingAllocator" where
  "DeallocatePiece s piece =
     (upd s piece (\<lambda>p. p\<lparr>ptr := 0, size_piece := 0, bin_num := kInvalidBinNum, is_free := True,
                            prev := None, next := recycle_piece_list s\<rparr>))
       \<lparr>recycle_piece_list := Some piece\<rparr>"

definition MarkPiece :: "CachingAllocator \<Rightarrow> nat \<Rightarrow> error + CachingAllocator" where
  "MarkPiece s piece =
     (case map_of (ptr2piece s) (ptr (pieces s ! piece)) of
        None \<Rightarrow> Inr (s\<lparr>ptr2piece := (ptr (pieces s ! piece), piece) # ptr2piece s\<rparr>)
      | Some q \<Rightarrow> Inl CheckFailed)"

definition UnMarkPiece :: "CachingAllocator \<Rightarrow> nat \<Rightarrow> error + CachingAllocator" where
  "UnMarkPiece s piece =
     (case map_of (ptr2piece s) (ptr (pieces s ! piece)) of
        None \<Rightarrow> Inl CheckFailed
      | Some q \<Rightarrow> Inr (s\<lparr>ptr2piece := AList.delete (ptr (pieces s ! piece)) (ptr2piece s)\<rparr>))"

text \<open>The body of the search loop of \<^verbatim>\<open>FindPiece\<close> once a Piece that is large enough
  is at hand (\<open>bn\<close> is the bin the iterator walks): take it out of the bin and split it
  when the rest is worth a Piece of its own.\<close>

definition FindPiece_found ::
  "CachingAllocator \<Rightarrow> nat \<Rightarrow> nat \<Rightarrow> nat \<Rightarrow> error + CachingAllocator \<times> nat option" where
  "FindPiece_found s aligned_size bn piece =
     (let b = bins s ! bn;
          s1 = s\<lparr>bins := (bins s)[bn := b\<lparr>pieces_bin := remove1 piece (pieces_bin b)\<rparr>]\<rparr>;
          s2 = upd s1 piece (\<lambda>p. p\<lparr>bin_num := kInvalidBinNum\<rparr>);
          s3 = upd s2 piece (\<lambda>p. p\<lparr>is_free := False\<rparr>)
      in if size_piece (pieces s3 ! piece) \<ge> wrap64 (aligned_size * 2)
            \<or> size_piece (pieces s3 ! piece) - aligned_size \<ge> kPieceSplitThreshold
         then
           (let (s4, new_piece) = AllocatePiece s3;
                s5 = upd s4 new_piece (\<lambda>p. p\<lparr>ptr := wrap64 (ptr (pieces s4 ! piece) + aligned_size)\<rparr>);
                s6 = upd s5 new_piece (\<lambda>p. p\<lparr>size_piece := size_piece (pieces s5 ! piece) - aligned_size\<rparr>);
                s7 = upd s6 piece (\<lambda>p. p\<lparr>size_piece := aligned_size\<rparr>);
                next_p = next (pieces s7 ! piece);
                s8 = upd s7 piece (\<lambda>p. p\<lparr>next := Some new_piece\<rparr>);
                s9 = upd s8 new_piece (\<lambda>p. p\<lparr>prev := Some piece\<rparr>);
                s10 = upd s9 new_piece (\<lambda>p. p\<lparr>next := next_p\<rparr>);
                s11 = (case next_p of None \<Rightarrow> s10
                       | Some n \<Rightarrow> upd s10 n (\<lambda>p. p\<lparr>prev := Some new_piece\<rparr>));
                s12 = upd s11 new_piece (\<lambda>p. p\<lparr>is_free := True\<rparr>);
                s13 = upd s12 new_piece (\<lambda>p. p\<lparr>bin_num := kInvalidBinNum\<rparr>)
            in RV_CHECK (IsAlignedSize (size_piece (pieces s13 ! piece)) (alignment s13))
                (RV_CHECK (IsAlignedSize (size_piece (pieces s13 ! new_piece)) (alignment s13))
                  (bind_e (InsertPiece2Bin s13 new_piece) (\<lambda>s14.
                   bind_e (MarkPiece s14 new_piece) (\<lambda>s15.
                   Inr (s15, Some piece))))))
         else Inr (s3, Some piece))"

text \<open>The inner loop of \<^verbatim>\<open>FindPiece\<close>, over the Pieces of one bin in the order of the set.\<close>

fun FindPiece_bin ::
  "CachingAllocator \<Rightarrow> nat \<Rightarrow> nat \<Rightarrow> nat list \<Rightarrow> error + CachingAllocator \<times> nat option" where
  "FindPiece_bin s aligned_size bn [] = Inr (s, None)"
| "FindPiece_bin s aligned_size bn (piece # rest) =
     RV_CHECK (is_free (pieces s ! piece))
       (RV_CHECK (IsAlignedSize (size_piece (pieces s ! piece)) (alignment s))
         (if size_piece (pieces s ! piece) \<ge> aligned_size
          then FindPiece_found s aligned_size bn piece
          else FindPiece_bin s aligned_size bn rest))"

text \<open>The outer loop of \<^verbatim>\<open>FindPiece\<close>, over the bins from \<open>bn\<close> (the source's \<^verbatim>\<open>bin_num\<close>) upwards.\<close>

function FindPiece_from ::
  "CachingAllocator \<Rightarrow> nat \<Rightarrow> int \<Rightarrow> error + CachingAllocator \<times> nat option" where
  "FindPiece_from s aligned_size bn =
     (if bn < kBinNumSize
      then (case bins_at (bins s) bn of
              Inl e \<Rightarrow> Inl e
            | Inr b \<Rightarrow>
               (case FindPiece_bin s aligned_size (nat bn) (pieces_bin b) of
                  Inl e \<Rightarrow> Inl e
                | Inr (s', Some piece) \<Rightarrow> Inr (s', Some piece)
                | Inr (s', None) \<Rightarrow> FindPiece_from s' aligned_size (bn + 1)))
      else Inr (s, None))"
  by pat_completeness auto
termination
  by (relation "measure (\<lambda>(s, a, b). nat (kBinNumSize - b))") auto

declare FindPiece_from.simps [simp del]

definition FindPiece :: "CachingAllocator \<Rightarrow> nat \<Rightarrow> error + CachingAllocator \<times> nat option" where
  "FindPiece s aligned_size = FindPiece_from s aligned_size (BinNum4BinSize aligned_size)"

definition MergeNeighbourFreePiece ::
  "CachingAllocator \<Rightarrow> nat \<Rightarrow> nat \<Rightarrow> error + CachingAllocator" where
  "MergeNeighbourFreePiece s lhs rhs =
     RV_CHECK (is_free (pieces s ! lhs))
    (RV_CHECK (is_free (pieces s ! rhs))
    (RV_CHECK (next (pieces s ! lhs) = Some rhs)
    (RV_CHECK (Some lhs = prev (pieces s ! rhs))
    (RV_CHECK (wrap64 (ptr (pieces s ! lhs) + size_piece (pieces s ! lhs)) = ptr (pieces s ! rhs))
      (let s1 = upd s lhs (\<lambda>p. p\<lparr>size_piece := wrap64 (size_piece p + size_piece (pieces s ! rhs))\<rparr>);
           s2 = upd s1 lhs (\<lambda>p. p\<lparr>next := next (pieces s1 ! rhs)\<rparr>);
           s3 = (case next (pieces s2 ! rhs) of None \<Rightarrow> s2
                 | Some n \<Rightarrow> upd s2 n (\<lambda>p. p\<lparr>prev := Some lhs\<rparr>))
       in bind_e (UnMarkPiece s3 rhs) (\<lambda>s4. Inr (DeallocatePiece s4 rhs)))))))"

text \<open>The number of bytes \<^verbatim>\<open>AllocateBlockToExtendTotalMem\<close> asks the device for
  (\<^verbatim>\<open>final_allocate_bytes\<close>).\<close>

definition final_allocate_bytes :: "nat \<Rightarrow> nat \<Rightarrow> nat" where
  "final_allocate_bytes algn aligned_size =
     (let allocate_bytes =
            (if aligned_size < 1048576 then 2097152
             else if aligned_size < 10485760 then 20971520
             else RoundUp aligned_size 2097152)
      in MemAlignedBytes allocate_bytes algn)"

text \<open>\<open>cudaMalloc n\<close> is the address the device allocator stores for a request of \<open>n\<close>
  bytes, \<open>0\<close> when it fails (\<^verbatim>\<open>mem_ptr\<close> stays null).\<close>

definition AllocateBlockToExtendTotalMem ::
  "(nat \<Rightarrow> nat) \<Rightarrow> CachingAllocator \<Rightarrow> nat \<Rightarrow> error + CachingAllocator \<times> bool" where
  "AllocateBlockToExtendTotalMem cudaMalloc s aligned_size =
     (let final = final_allocate_bytes (alignment s) aligned_size
      in if final < aligned_size then Inr (s, False)
         else
           (let mem_ptr = cudaMalloc final
            in if mem_ptr = 0 then Inr (s, False)
               else
                 (let s1 = s\<lparr>total_memory_bytes := wrap64 (total_memory_bytes s + final)\<rparr>;
                      (s2, piece) = AllocatePiece s1;
                      s3 = upd s2 piece (\<lambda>p. p\<lparr>size_piece := final, ptr := mem_ptr, prev := None,
                                                 next := None, is_free := True,
                                                 bin_num := kInvalidBinNum\<rparr>)
                  in bind_e (InsertPiece2Bin s3 piece) (\<lambda>s4.
                     bind_e (MarkPiece s4 piece) (\<lambda>s5.
                     Inr (s5\<lparr>mem_ptr2block :=
                               (if map_of (mem_ptr2block s5) mem_ptr = None
                                then (mem_ptr, \<lparr>size_block = size_piece (pieces s5 ! piece),
                                                ptr_block = ptr (pieces s5 ! piece),
                                                start_piece = Some piece\<rparr>) # mem_ptr2block s5
                                else mem_ptr2block s5)\<rparr>, True))))))"

subsection \<open>The public operations\<close>

definition DoAllocate ::
  "(nat \<Rightarrow> nat) \<Rightarrow> CachingAllocator \<Rightarrow> nat \<Rightarrow> error + CachingAllocator \<times> nat" where
  "DoAllocate cudaMalloc s sz =
     (if sz = 0 then Inr (s, 0)
      else
        (let aligned_size = MemAlignedBytes sz (alignment s)
         in bind_e (FindPiece s aligned_size) (\<lambda>(s1, piece).
            bind_e (case piece of
                      Some p \<Rightarrow> Inr (s1, piece)
                    | None \<Rightarrow>
                        bind_e (AllocateBlockToExtendTotalMem cudaMalloc s1 aligned_size) (\<lambda>(s2, ok).
                          if ok then FindPiece s2 aligned_size else Inr (s2, None)))
              (\<lambda>(s3, piece).
                 case piece of
                   None \<Rightarrow> Inl CheckFailed
                 | Some p \<Rightarrow> Inr (s3, ptr (pieces s3 ! p))))))"

definition Deallocate :: "CachingAllocator \<Rightarrow> nat \<Rightarrow> error + CachingAllocator" where
  "Deallocate s mem_ptr =
     (if mem_ptr = 0 then Inr s
      else
        (case map_of (ptr2piece s) mem_ptr of
           None \<Rightarrow> Inl InvalidDeref
         | Some piece \<Rightarrow>
             RV_CHECK (\<not> is_free (pieces s ! piece))
               (let s1 = upd s piece (\<lambda>p. p\<lparr>is_free := True\<rparr>);
                    next_p = next (pieces s1 ! piece);
                    prev_p = prev (pieces s1 ! piece)
                in bind_e (case next_p of
                             None \<Rightarrow> Inr s1
                           | Some n \<Rightarrow>
                               if is_free (pieces s1 ! n)
                               then bind_e (RemovePieceFromBin s1 n) (\<lambda>s'.
                                      MergeNeighbourFreePiece s' piece n)
                               else Inr s1) (\<lambda>s2.
                   bind_e (case prev_p of
                             None \<Rightarrow> Inr (s2, piece)
                           | Some q \<Rightarrow>
                               if is_free (pieces s2 ! q)
                               then bind_e (RemovePieceFromBin s2 q) (\<lambda>s'.
                                    bind_e (MergeNeighbourFreePiece s' q piece) (\<lambda>s''.
                                      Inr (s'', q)))
                               else Inr (s2, piece)) (\<lambda>(s3, last_piece_insert_to_bin).
                   InsertPiece2Bin s3 last_piece_insert_to_bin)))))"

subsection \<open>The two merging steps of \<^verbatim>\<open>Deallocate\<close>, named\<close>

text \<open>The first half of \<^verbatim>\<open>Deallocate\<close>: the freed Piece absorbs a free physical successor.\<close>

definition Deallocate_merge_next :: "CachingAllocator \<Rightarrow> nat \<Rightarrow> error + CachingAllocator" where
  "Deallocate_merge_next s1 piece =
     (case next (pieces s1 ! piece) of
        None \<Rightarrow> Inr s1
      | Some n \<Rightarrow>
          if is_free (pieces s1 ! n)
          then bind_e (RemovePieceFromBin s1 n) (\<lambda>s'. MergeNeighbourFreePiece s' piece n)
          else Inr s1)"

text \<open>The second half of \<^verbatim>\<open>Deallocate\<close>: a free physical predecessor absorbs the freed Piece.\<close>

definition Deallocate_merge_prev ::
  "CachingAllocator \<Rightarrow> nat option \<Rightarrow> nat \<Rightarrow> error + CachingAllocator \<times> nat" where
  "Deallocate_merge_prev s2 prev_p piece =
     (case prev_p of
        None \<Rightarrow> Inr (s2, piece)
      | Some q \<Rightarrow>
          if is_free (pieces s2 ! q)
          then bind_e (RemovePieceFromBin s2 q) (\<lambda>s'.
               bind_e (MergeNeighbourFreePiece s' q piece) (\<lambda>s''.
                 Inr (s'', q)))
          else Inr (s2, piece))"

section \<open>The invariant of the arena\<close>

text \<open>A Piece is live when the address map sends its address to it.\<close>

definition live :: "CachingAllocator \<Rightarrow> nat \<Rightarrow> bool" where
  "live s x \<longleftrightarrow>
     x < length (pieces s) \<and> map_of (ptr2piece s) (ptr (pieces s ! x)) = Some x"

definition map_ok :: "CachingAllocator \<Rightarrow> bool" where
  "map_ok s \<longleftrightarrow>
     (\<forall>(a, x) \<in> set (ptr2piece s). x < length (pieces s) \<and> ptr (pieces s ! x) = a)"

text \<open>Every bin is ordered by \<^verbatim>\<open>PieceCmp\<close> and holds live, free Pieces that carry its number.\<close>

definition bins_ok :: "CachingAllocator \<Rightarrow> bool" where
  "bins_ok s \<longleftrightarrow>
     length (bins s) = 20 \<and>
     (\<forall>i < 20. sorted_wrt (PieceCmp (pieces s)) (pieces_bin (bins s ! i)) \<and>
        (\<forall>x \<in> set (pieces_bin (bins s ! i)).
           live s x \<and> is_free (pieces s ! x) \<and> bin_num (pieces s ! x) = int i))"

text \<open>A null-terminated chain of descriptors along \<^verbatim>\<open>next\<close>.\<close>

primrec chain :: "Piece list \<Rightarrow> nat option \<Rightarrow> nat list \<Rightarrow> bool" where
  "chain ps p [] \<longleftrightarrow> p = None"
| "chain ps p (x # xs) \<longleftrightarrow> p = Some x \<and> chain ps (next (ps ! x)) xs"

text \<open>The retired descriptors form a chain from \<^verbatim>\<open>recycle_piece_list_\<close>; the address
  map sends no address to any of them.\<close>

definition recycle_ok :: "CachingAllocator \<Rightarrow> bool" where
  "recycle_ok s \<longleftrightarrow>
     (\<exists>rs. chain (pieces s) (recycle_piece_list s) rs \<and>
        (\<forall>x \<in> set rs. x < length (pieces s) \<and> x \<notin> snd ` set (ptr2piece s)))"

text \<open>The links of a live Piece: \<^verbatim>\<open>next\<close> and \<^verbatim>\<open>prev\<close> are inverse, the next Piece starts
  where this one ends, a Piece that has a next is not empty, sizes are multiples of the
  alignment and the Piece ends inside the 64-bit address space.\<close>

definition link_ok :: "CachingAllocator \<Rightarrow> nat \<Rightarrow> bool" where
  "link_ok s x \<longleftrightarrow>
     (\<forall>y. next (pieces s ! x) = Some y \<longrightarrow>
        live s y \<and> prev (pieces s ! y) = Some x \<and>
        ptr (pieces s ! y) = ptr (pieces s ! x) + size_piece (pieces s ! x) \<and>
        0 < size_piece (pieces s ! x)) \<and>
     (\<forall>y. prev (pieces s ! x) = Some y \<longrightarrow> live s y \<and> next (pieces s ! y) = Some x) \<and>
     size_piece (pieces s ! x) mod 512 = 0 \<and>
     ptr (pieces s ! x) + size_piece (pieces s ! x) < 2 ^ 64"

text \<open>A free Piece is filed in the bin of its size class.\<close>

definition filed :: "CachingAllocator \<Rightarrow> nat \<Rightarrow> bool" where
  "filed s x \<longleftrightarrow>
     (is_free (pieces s ! x) \<longrightarrow>
        bin_num (pieces s ! x) = BinNum4BinSize (size_piece (pieces s ! x)) \<and>
        x \<in> set (pieces_bin (bins s ! nat (bin_num (pieces s ! x)))))"

text \<open>The invariant, with a set \<open>H\<close> of Pieces under repair: live and free, but in no
  bin yet and possibly next to a free Piece. \<open>ginv {}\<close> is the invariant between the
  public operations.\<close>

definition ginv :: "nat set \<Rightarrow> CachingAllocator \<Rightarrow> bool" where
  "ginv H s \<longleftrightarrow>
     alignment s = 512 \<and> map_ok s \<and> bins_ok s \<and> recycle_ok s \<and>
     (\<forall>x. live s x \<longrightarrow>
        link_ok s x \<and>
        (x \<notin> H \<longrightarrow> filed s x \<and>
           (\<forall>y. next (pieces s ! x) = Some y \<longrightarrow> y \<notin> H \<longrightarrow>
              \<not> (is_free (pieces s ! x) \<and> is_free (pieces s ! y))))) \<and>
     (\<forall>x \<in> H. live s x \<and> is_free (pieces s ! x) \<and>
        (\<forall>i < 20. x \<notin> set (pieces_bin (bins s ! i))))"

definition arena_inv :: "CachingAllocator \<Rightarrow> bool" where
  "arena_inv s \<longleftrightarrow> ginv {} s"

text \<open>The device allocator hands out address ranges that end inside the 64-bit address
  space (or fails).\<close>

definition substrate_ok :: "(nat \<Rightarrow> nat) \<Rightarrow> bool" where
  "substrate_ok cudaMalloc \<longleftrightarrow> (\<forall>n. cudaMalloc n = 0 \<or> cudaMalloc n + n < 2 ^ 64)"

section \<open>Notions of the specification\<close>

text \<open>The size class in the words of the specification: clamp the size to at least the
  alignment unit, divide by the alignment unit, take the index of the highest set bit, cap
  at the number of classes minus one.\<close>

fun highest_set_bit :: "nat \<Rightarrow> nat" where
  "highest_set_bit n = (if n < 2 then 0 else Suc (highest_set_bit (n div 2)))"

declare highest_set_bit.simps [simp del]

definition size_class_spec :: "nat \<Rightarrow> nat" where
  "size_class_spec sz = min (20 - 1) (highest_set_bit (max sz 512 div 512))"

definition class_floor_size :: "nat \<Rightarrow> nat" where
  "class_floor_size i = push_bit i 512"

text \<open>Physical adjacency: no live Piece and its successor in the chain are both free.\<close>

definition no_adjacent_free :: "CachingAllocator \<Rightarrow> bool" where
  "no_adjacent_free s \<longleftrightarrow>
     (\<forall>x y. live s x \<longrightarrow> next (pieces s ! x) = Some y \<longrightarrow>
        \<not> (is_free (pieces s ! x) \<and> is_free (pieces s ! y)))"

text \<open>The free physical neighbours of a Piece, the Piece that survives its deallocation
  (the lower one of a merge) and the size the survivor ends with.\<close>

definition free_next :: "CachingAllocator \<Rightarrow> nat \<Rightarrow> nat option" where
  "free_next s x =
     (case next (pieces s ! x) of None \<Rightarrow> None
      | Some n \<Rightarrow> if is_free (pieces s ! n) then Some n else None)"

definition free_prev :: "CachingAllocator \<Rightarrow> nat \<Rightarrow> nat option" where
  "free_prev s x =
     (case prev (pieces s ! x) of None \<Rightarrow> None
      | Some q \<Rightarrow> if is_free (pieces s ! q) then Some q else None)"

definition survivor :: "CachingAllocator \<Rightarrow> nat \<Rightarrow> nat" where
  "survivor s x = (case free_prev s x of None \<Rightarrow> x | Some q \<Rightarrow> q)"

definition merged_size :: "CachingAllocator \<Rightarrow> nat \<Rightarrow> nat" where
  "merged_size s x =
     size_piece (pieces s ! x)
     + (case free_next s x of None \<Rightarrow> 0 | Some n \<Rightarrow> size_piece (pieces s ! n))
     + (case free_prev s x of None \<Rightarrow> 0 | Some q \<Rightarrow> size_piece (pieces s ! q))"

text \<open>A descriptor that \<^verbatim>\<open>AllocatePiece\<close> hands out is detached: the address map does not
  know it and the recycle chain goes on without it.\<close>

definition detached :: "CachingAllocator \<Rightarrow> nat \<Rightarrow> bool" where
  "detached s z \<longleftrightarrow>
     z < length (pieces s) \<and> z \<notin> snd ` set (ptr2piece s) \<and>
     (\<exists>rs. chain (pieces s) (recycle_piece_list s) rs \<and> z \<notin> set rs \<and>
        (\<forall>x \<in> set rs. x < length (pieces s) \<and> x \<notin> snd ` set (ptr2piece s)))"

text \<open>The assignments of the split branch of \<^verbatim>\<open>FindPiece\<close>: the new Piece takes the rest
  of the chosen one and is linked in right behind it.\<close>

definition FindPiece_split :: "CachingAllocator \<Rightarrow> nat \<Rightarrow> nat \<Rightarrow> nat \<Rightarrow> CachingAllocator" where
  "FindPiece_split s4 aligned_size piece new_piece =
     (let s5 = upd s4 new_piece (\<lambda>p. p\<lparr>ptr := wrap64 (ptr (pieces s4 ! piece) + aligned_size)\<rparr>);
          s6 = upd s5 new_piece (\<lambda>p. p\<lparr>size_piece := size_piece (pieces s5 ! piece) - aligned_size\<rparr>);
          s7 = upd s6 piece (\<lambda>p. p\<lparr>size_piece := aligned_size\<rparr>);
          next_p = next (pieces s7 ! piece);
          s8 = upd s7 piece (\<lambda>p. p\<lparr>next := Some new_piece\<rparr>);
          s9 = upd s8 new_piece (\<lambda>p. p\<lparr>prev := Some piece\<rparr>);
          s10 = upd s9 new_piece (\<lambda>p. p\<lparr>next := next_p\<rparr>);
          s11 = (case next_p of None \<Rightarrow> s10
                 | Some n \<Rightarrow> upd s10 n (\<lambda>p. p\<lparr>prev := Some new_piece\<rparr>));
          s12 = upd s11 new_piece (\<lambda>p. p\<lparr>is_free := True\<rparr>)
      in upd s12 new_piece (\<lambda>p. p\<lparr>bin_num := kInvalidBinNum\<rparr>))"

text \<open>The condition under which \<^verbatim>\<open>FindPiece\<close> splits the chosen Piece, as the source
  computes it.\<close>

definition FindPiece_splits :: "nat \<Rightarrow> nat \<Rightarrow> bool" where
  "FindPiece_splits sz aligned_size \<longleftrightarrow>
     sz \<ge> wrap64 (aligned_size * 2) \<or> sz - aligned_size \<ge> kPieceSplitThreshold"

text \<open>The Pieces in the order in which \<^verbatim>\<open>FindPiece\<close> inspects them: the bins from the
  size class of the request upwards, each in the order of its set; and the first of them
  that is large enough.\<close>

definition scan_order :: "CachingAllocator \<Rightarrow> nat \<Rightarrow> nat list" where
  "scan_order s aligned_size =
     concat (map pieces_bin (drop (nat (BinNum4BinSize aligned_size)) (bins s)))"

definition first_fit :: "CachingAllocator \<Rightarrow> nat \<Rightarrow> nat option" where
  "first_fit s aligned_size =
     List.find (\<lambda>x. aligned_size \<le> size_piece (pieces s ! x)) (scan_order s aligned_size)"



text \<open>A device that serves one request of 2 MiB at address 4096 and fails otherwise, and
  the states of an allocator that runs on it: after growing, after \<^verbatim>\<open>DoAllocate(100)\<close>
  once and twice, after \<^verbatim>\<open>Deallocate(4096)\<close> and after \<^verbatim>\<open>Deallocate(4608)\<close>.\<close>

definition device_one_block :: "nat \<Rightarrow> nat" where
  "device_one_block n = (if n = 2097152 then 4096 else 0)"

definition empty_bins :: "Bin list" where
  "empty_bins = map (\<lambda>i. \<lparr>size_bin = BinSize4BinNum (int i), pieces_bin = []\<rparr>) [0 ..< 20]"


definition arena_1 :: CachingAllocator where
  "arena_1 = \<lparr>alignment = 512, total_memory_bytes = 2097152,
     mem_ptr2block = [(4096, \<lparr>size_block = 2097152, ptr_block = 4096, start_piece = Some 0\<rparr>)],
     bins = empty_bins[12 := \<lparr>size_bin = BinSize4BinNum 12, pieces_bin = []\<rparr>,
                       11 := \<lparr>size_bin = BinSize4BinNum 11, pieces_bin = [1]\<rparr>],
     pieces = [\<lparr>size_piece = 512, ptr = 4096, is_free = False, prev = None, next = Some 1,
                bin_num = - 1\<rparr>,
               \<lparr>size_piece = 2096640, ptr = 4608, is_free = True, prev = Some 0, next = None,
                bin_num = 11\<rparr>],
     ptr2piece = [(4608, 1), (4096, 0)], recycle_piece_list = None\<rparr>"

definition arena_2 :: CachingAllocator where
  "arena_2 = \<lparr>alignment = 512, total_memory_bytes = 2097152,
     mem_ptr2block = [(4096, \<lparr>size_block = 2097152, ptr_block = 4096, start_piece = Some 0\<rparr>)],
     bins = empty_bins[12 := \<lparr>size_bin = BinSize4BinNum 12, pieces_bin = []\<rparr>,
                       11 := \<lparr>size_bin = BinSize4BinNum 11, pieces_bin = [2]\<rparr>],
     pieces = [\<lparr>size_piece = 512, ptr = 4096, is_free = False, prev = None, next = Some 1,
                bin_num = - 1\<rparr>,
               \<lparr>size_piece = 512, ptr = 4608, is_free = False, prev = Some 0, next = Some 2,
                bin_num = - 1\<rparr>,
               \<lparr>size_piece = 2096128, ptr = 5120, is_free = True, prev = Some 1, next = None,
                bin_num = 11\<rparr>],
     ptr2piece = [(5120, 2), (4608, 1), (4096, 0)], recycle_piece_list = None\<rparr>"

definition arena_3 :: CachingAllocator where
  "arena_3 = \<lparr>alignment = 512, total_memory_bytes = 2097152,
     mem_ptr2block = [(4096, \<lparr>size_block = 2097152, ptr_block = 4096, start_piece = Some 0\<rparr>)],
     bins = empty_bins[12 := \<lparr>size_bin = BinSize4BinNum 12, pieces_bin = []\<rparr>,
                       11 := \<lparr>size_bin = BinSize4BinNum 11, pieces_bin = [2]\<rparr>,
                       0 := \<lparr>size_bin = BinSize4BinNum 0, pieces_bin = [0]\<rparr>],
     pieces = [\<lparr>size_piece = 512, ptr = 4096, is_free = True, prev = None, next = Some 1,
                bin_num = 0\<rparr>,
               \<lparr>size_piece = 512, ptr = 4608, is_free = False, prev = Some 0, next = Some 2,
                bin_num = - 1\<rparr>,
               \<lparr>size_piece = 2096128, ptr = 5120, is_free = True, prev = Some 1, next = None,
                bin_num = 11\<rparr>],
     ptr2piece = [(5120, 2), (4608, 1), (4096, 0)], recycle_piece_list = None\<rparr>"

definition arena_4 :: CachingAllocator where
  "arena_4 = \<lparr>alignment = 512, total_memory_bytes = 2097152,
     mem_ptr2block = [(4096, \<lparr>size_block = 2097152, ptr_block = 4096, start_piece = Some 0\<rparr>)],
     bins = empty_bins[12 := \<lparr>size_bin = BinSize4BinNum 12, pieces_bin = [0]\<rparr>],
     pieces = [\<lparr>size_piece = 2097152, ptr = 4096, is_free = True, prev = None, next = None,
                bin_num = 12\<rparr>,
               \<lparr>size_piece = 0, ptr = 0, is_free = True, prev = None, next = Some 2,
                bin_num = - 1\<rparr>,
               \<lparr>size_piece = 0, ptr = 0, is_free = True, prev = None, next = None,
                bin_num = - 1\<rparr>],
     ptr2piece = [(4096, 0)], recycle_piece_list = Some 1\<rparr>"

(*DEFS-END*)

section \<open>Size classes\<close>

lemma bit_length_pos: "0 < n \<Longrightarrow> 0 < bit_length n"
  by (subst bit_length.simps) simp

lemma bit_length_bounds: "0 < n \<Longrightarrow> 2 ^ (bit_length n - 1) \<le> n \<and> n < 2 ^ bit_length n"
proof (induction n rule: bit_length.induct)
  case (1 n)
  show ?case
  proof (cases "n div 2 = 0")
    case True
    with "1.prems" have "n = 1" by (simp add: div_eq_0_iff) 
    then show ?thesis by (simp add: bit_length.simps)
  next
    case False
    then have pos: "0 < n div 2" by simp
    from "1.IH" [OF _ pos] "1.prems"
    have ih: "2 ^ (bit_length (n div 2) - 1) \<le> n div 2" "n div 2 < 2 ^ bit_length (n div 2)"
      by auto
    have bl: "bit_length n = Suc (bit_length (n div 2))"
      using "1.prems" by (subst bit_length.simps) simp
    obtain k where k: "bit_length (n div 2) = Suc k"
      using bit_length_pos [OF pos] by (cases "bit_length (n div 2)") auto
    from ih k have "2 ^ k \<le> n div 2" "n div 2 < 2 ^ Suc k" by auto
    then have "2 * 2 ^ k \<le> n" "n < 2 * 2 ^ Suc k" by linarith+
    then show ?thesis by (simp add: bl k)
  qed
qed

lemma bit_length_unique:
  assumes "2 ^ k \<le> n" "n < 2 ^ Suc k"
  shows "bit_length n = Suc k"
proof -
  have pos: "0 < n" using assms(1) by (metis gr0I not_less zero_less_numeral zero_less_power less_nat_zero_code le_zero_eq power_not_zero zero_neq_numeral)
  from bit_length_bounds [OF pos] have b: "2 ^ (bit_length n - 1) \<le> n" "n < 2 ^ bit_length n" by auto
  from b(2) assms(1) have "(2::nat) ^ k < 2 ^ bit_length n" by linarith
  then have "k < bit_length n" using power_less_imp_less_exp [of 2 k "bit_length n"] by simp
  moreover from b(1) assms(2) have "(2::nat) ^ (bit_length n - 1) < 2 ^ Suc k" by linarith
  then have "bit_length n - 1 < Suc k"
    using power_less_imp_less_exp [of 2 "bit_length n - 1" "Suc k"] by simp
  ultimately show ?thesis by linarith
qed


lemma xor_63_all: "\<forall>c \<in> set [0 ..< 64]. (63::nat) XOR c = 63 - c"
  by code_simp

lemma xor_63: "c \<le> 63 \<Longrightarrow> (63::nat) XOR c = 63 - c"
  using xor_63_all by simp


lemma highest_set_bit_eq: "highest_set_bit n = bit_length n - 1"
proof (induction n rule: highest_set_bit.induct)
  case (1 n)
  show ?case
  proof (cases "n < 2")
    case True
    then have "n = 0 \<or> n = 1" by auto
    then show ?thesis
      by (auto simp: highest_set_bit.simps [of 0] highest_set_bit.simps [of 1]
          highest_set_bit.simps [of "Suc 0"] bit_length.simps [of 0] bit_length.simps [of 1] bit_length.simps [of "Suc 0"])
  next
    case False
    then have pos: "0 < n div 2" by simp
    have "highest_set_bit n = Suc (highest_set_bit (n div 2))"
      using False by (subst highest_set_bit.simps) simp
    also have "\<dots> = Suc (bit_length (n div 2) - 1)" using "1.IH" False by simp
    also have "\<dots> = bit_length (n div 2)" using bit_length_pos [OF pos] by simp
    also have "\<dots> = bit_length n - 1" using False by (subst (2) bit_length.simps) simp
    finally show ?thesis .
  qed
qed

lemma highest_set_bit_bounds:
  "0 < n \<Longrightarrow> 2 ^ highest_set_bit n \<le> n \<and> n < 2 ^ Suc (highest_set_bit n)"
  using bit_length_bounds [of n] bit_length_pos [of n] by (simp add: highest_set_bit_eq)

lemma highest_set_bit_is_bit:
  assumes "0 < n"
  shows "bit n (highest_set_bit n) \<and> (\<forall>j > highest_set_bit n. \<not> bit n j)"
proof -
  let ?k = "highest_set_bit n"
  from highest_set_bit_bounds [OF assms] have b: "2 ^ ?k \<le> n" "n < 2 ^ Suc ?k" by auto
  have "n div 2 ^ ?k = 1"
  proof -
    have "n div 2 ^ ?k < 2" using b(2) by (simp add: less_mult_imp_div_less mult.commute)
    moreover have "0 < n div 2 ^ ?k" using b(1) by (simp add: div_greater_zero_iff)
    ultimately show ?thesis by linarith
  qed
  then have "bit n ?k" by (simp add: bit_iff_odd)
  moreover have "\<not> bit n j" if "j > ?k" for j
  proof -
    have "(2::nat) ^ Suc ?k \<le> 2 ^ j" using that by (intro power_increasing) auto
    then have "n < 2 ^ j" using b(2) by linarith
    then show ?thesis by (simp add: bit_iff_odd)
  qed
  ultimately show ?thesis by blast
qed

lemma clz_xor: "63 XOR clzll v = (if bit_length v \<le> 64 then bit_length v - 1 else 63)" if "0 < v"
proof -
  have "clzll v \<le> 63" using bit_length_pos [OF that] by (simp add: clzll_def)
  then have "63 XOR clzll v = 63 - clzll v" by (rule xor_63)
  then show ?thesis using bit_length_pos [OF that] by (auto simp: clzll_def)
qed

lemma BinNum4BinSize_eq:
  "BinNum4BinSize sz = int (min 19 (highest_set_bit (max sz 512 div 512)))"
proof -
  let ?v = "max sz 512 div 512"
  have pos: "0 < ?v" by (simp add: div_greater_zero_iff)
  show ?thesis
    using clz_xor [OF pos]
    by (auto simp: BinNum4BinSize_def kAlignSize_def kBinNumSize_def drop_bit_eq_div
        highest_set_bit_eq Let_def min_def)
qed

lemma BinNum4BinSize_range:
  "0 \<le> BinNum4BinSize sz \<and> BinNum4BinSize sz < 20"
  by (simp add: BinNum4BinSize_eq)

lemma BinNum4BinSize_iff:
  assumes "i < 19"
  shows "BinNum4BinSize sz = int i \<longleftrightarrow> 512 * 2 ^ i \<le> max sz 512 \<and> max sz 512 < 512 * 2 ^ Suc i"
proof -
  let ?v = "max sz 512 div 512"
  have pos: "0 < ?v" by (simp add: div_greater_zero_iff)
  have conv: "(2 ^ i \<le> ?v \<and> ?v < 2 ^ Suc i) \<longleftrightarrow>
              (512 * 2 ^ i \<le> max sz 512 \<and> max sz 512 < 512 * 2 ^ Suc i)"
    by (simp add: less_eq_div_iff_mult_less_eq div_less_iff_less_mult mult.commute)
  have "BinNum4BinSize sz = int i \<longleftrightarrow> highest_set_bit ?v = i"
    using assms by (auto simp: BinNum4BinSize_eq min_def)
  also have "\<dots> \<longleftrightarrow> (2 ^ i \<le> ?v \<and> ?v < 2 ^ Suc i)"
  proof
    assume "highest_set_bit ?v = i"
    then show "2 ^ i \<le> ?v \<and> ?v < 2 ^ Suc i" using highest_set_bit_bounds [OF pos] by simp
  next
    assume "2 ^ i \<le> ?v \<and> ?v < 2 ^ Suc i"
    then have "bit_length ?v = Suc i" by (intro bit_length_unique) auto
    then show "highest_set_bit ?v = i" by (simp add: highest_set_bit_eq)
  qed
  finally show ?thesis using conv by simp
qed

lemma BinNum4BinSize_top:
  "BinNum4BinSize sz = 19 \<longleftrightarrow> 512 * 2 ^ 19 \<le> sz"
proof -
  let ?v = "max sz 512 div 512"
  have pos: "0 < ?v" by (simp add: div_greater_zero_iff)
  have "BinNum4BinSize sz = 19 \<longleftrightarrow> 19 \<le> highest_set_bit ?v"
    by (auto simp: BinNum4BinSize_eq min_def)
  also have "\<dots> \<longleftrightarrow> 2 ^ 19 \<le> ?v"
  proof
    assume "19 \<le> highest_set_bit ?v"
    then have "(2::nat) ^ 19 \<le> 2 ^ highest_set_bit ?v" by (intro power_increasing) auto
    then show "2 ^ 19 \<le> ?v" using highest_set_bit_bounds [OF pos] by linarith
  next
    assume a: "2 ^ 19 \<le> ?v"
    show "19 \<le> highest_set_bit ?v"
    proof (rule ccontr)
      assume "\<not> 19 \<le> highest_set_bit ?v"
      then have "Suc (highest_set_bit ?v) \<le> 19" by simp
      then have "(2::nat) ^ Suc (highest_set_bit ?v) \<le> 2 ^ 19" by (intro power_increasing) auto
      then show False using highest_set_bit_bounds [OF pos] a by linarith
    qed
  qed
  also have "\<dots> \<longleftrightarrow> 512 * 2 ^ 19 \<le> sz"
    by (simp add: less_eq_div_iff_mult_less_eq max_def)
  finally show ?thesis .
qed

lemma BinSize4BinNum_eq: "i < 20 \<Longrightarrow> BinSize4BinNum (int i) = 512 * 2 ^ i"
proof -
  assume "i < 20"
  then have "(2::nat) ^ i \<le> 2 ^ 19" by (intro power_increasing) auto
  then have "512 * (2::nat) ^ i < 2 ^ 64" by simp
  then show ?thesis by (simp add: BinSize4BinNum_def kAlignSize_def wrap64_def push_bit_eq_mult mult.commute)
qed


text \<open>
  C7. \<^verbatim>\<open>BinNum4BinSize\<close> is the size class of the specification: the index of the highest
  set bit of \<open>max size 512 div 512\<close>, capped at 19; \<^verbatim>\<open>BinSize4BinNum i\<close> is \<open>512 << i\<close>;
  class \<open>i < 19\<close> holds exactly the sizes (clamped to at least 512) in
  \<open>[512 * 2 ^ i, 512 * 2 ^ (i + 1))\<close>, and class 19 every size from \<open>512 * 2 ^ 19\<close> on.
\<close>

theorem BinNum4BinSize_size_class:
  "BinNum4BinSize sz = int (size_class_spec sz)
   \<and> bit (max sz 512 div 512) (highest_set_bit (max sz 512 div 512))
   \<and> (\<forall>j > highest_set_bit (max sz 512 div 512). \<not> bit (max sz 512 div 512) j)
   \<and> (i < 20 \<longrightarrow> BinSize4BinNum (int i) = class_floor_size i \<and> class_floor_size i = 512 * 2 ^ i)
   \<and> (i < 19 \<longrightarrow> (BinNum4BinSize sz = int i
          \<longleftrightarrow> class_floor_size i \<le> max sz 512 \<and> max sz 512 < class_floor_size (Suc i)))
   \<and> (BinNum4BinSize sz = 19 \<longleftrightarrow> class_floor_size 19 \<le> sz)"
proof -
  have pos: "0 < max sz 512 div 512" by (simp add: div_greater_zero_iff)
  have cf: "class_floor_size k = 512 * 2 ^ k" for k
    by (simp add: class_floor_size_def push_bit_eq_mult mult.commute)
  show ?thesis
    using highest_set_bit_is_bit [OF pos] BinNum4BinSize_iff [of i sz] BinNum4BinSize_top [of sz]
      BinSize4BinNum_eq [of i]
    by (simp add: BinNum4BinSize_eq size_class_spec_def cf)
qed

theorem BinNum4BinSize_size_class_witness:
  "BinNum4BinSize 5000 = int (size_class_spec 5000) \<and> BinNum4BinSize 5000 = 3
   \<and> BinSize4BinNum 3 = class_floor_size 3 \<and> class_floor_size 3 = 4096
   \<and> class_floor_size 3 \<le> max 5000 512 \<and> max 5000 512 < class_floor_size (Suc 3)
   \<and> BinNum4BinSize 5000 \<noteq> 19"
  using BinNum4BinSize_size_class [of 5000 3]
  by (simp add: class_floor_size_def)

section \<open>Preservation of the invariant\<close>

lemma pieces_upd: "pieces (upd s p f) = (pieces s)[p := f (pieces s ! p)]"
  by (simp add: upd_def)

lemma length_pieces_upd [simp]: "length (pieces (upd s p f)) = length (pieces s)"
  by (simp add: upd_def)

lemma nth_pieces_upd:
  "p < length (pieces s) \<Longrightarrow>
     pieces (upd s p f) ! y = (if y = p then f (pieces s ! p) else pieces s ! y)"
  by (simp add: upd_def nth_list_update)

lemma upd_fields [simp]:
  "bins (upd s p f) = bins s"
  "ptr2piece (upd s p f) = ptr2piece s"
  "recycle_piece_list (upd s p f) = recycle_piece_list s"
  "alignment (upd s p f) = alignment s"
  "total_memory_bytes (upd s p f) = total_memory_bytes s"
  "mem_ptr2block (upd s p f) = mem_ptr2block s"
  by (simp_all add: upd_def)

lemma sorted_PieceCmp_cong:
  assumes "\<And>x. x \<in> set xs \<Longrightarrow> size_piece (ps' ! x) = size_piece (ps ! x) \<and> ptr (ps' ! x) = ptr (ps ! x)"
  shows "sorted_wrt (PieceCmp ps') xs = sorted_wrt (PieceCmp ps) xs"
  using assms
proof (induction xs)
  case Nil
  then show ?case by simp
next
  case (Cons a xs)
  then have "\<And>y. y \<in> set xs \<Longrightarrow> PieceCmp ps' a y = PieceCmp ps a y"
    by (auto simp: PieceCmp_def)
  with Cons show ?case by auto
qed

lemma chain_cong:
  "(\<And>x. x \<in> set rs \<Longrightarrow> next (ps' ! x) = next (ps ! x)) \<Longrightarrow> chain ps' p rs = chain ps p rs"
  by (induction rs arbitrary: p) auto

lemma map_ok_alt:
  "map_ok s \<longleftrightarrow>
     (\<forall>a x. (a, x) \<in> set (ptr2piece s) \<longrightarrow> x < length (pieces s) \<and> ptr (pieces s ! x) = a)"
  by (auto simp: map_ok_def)

lemma map_ok_live: "map_ok s \<Longrightarrow> map_of (ptr2piece s) a = Some x \<Longrightarrow> live s x \<and> ptr (pieces s ! x) = a"
  by (frule map_of_SomeD) (auto simp: map_ok_alt live_def)

lemma live_inj: "live s x \<Longrightarrow> live s y \<Longrightarrow> ptr (pieces s ! x) = ptr (pieces s ! y) \<Longrightarrow> x = y"
  by (simp add: live_def)

lemma live_mapped: "live s x \<Longrightarrow> x \<in> snd ` set (ptr2piece s)"
  by (force simp: live_def dest!: map_of_SomeD)

lemma live_length: "live s x \<Longrightarrow> x < length (pieces s)"
  by (simp add: live_def)

lemma ginvI:
  assumes "alignment s = 512" "map_ok s" "bins_ok s" "recycle_ok s"
    "\<And>x. live s x \<Longrightarrow> link_ok s x"
    "\<And>x. live s x \<Longrightarrow> x \<notin> H \<Longrightarrow> filed s x"
    "\<And>x y. live s x \<Longrightarrow> x \<notin> H \<Longrightarrow> next (pieces s ! x) = Some y \<Longrightarrow> y \<notin> H \<Longrightarrow>
        is_free (pieces s ! x) \<Longrightarrow> is_free (pieces s ! y) \<Longrightarrow> False"
    "\<And>x. x \<in> H \<Longrightarrow> live s x \<and> is_free (pieces s ! x)"
    "\<And>x i. x \<in> H \<Longrightarrow> i < 20 \<Longrightarrow> x \<in> set (pieces_bin (bins s ! i)) \<Longrightarrow> False"
  shows "ginv H s"
  unfolding ginv_def using assms by blast

lemma ginvD:
  assumes "ginv H s"
  shows ginv_alignment: "alignment s = 512"
    and ginv_map_ok: "map_ok s"
    and ginv_bins_ok: "bins_ok s"
    and ginv_recycle_ok: "recycle_ok s"
    and ginv_link: "\<And>x. live s x \<Longrightarrow> link_ok s x"
    and ginv_filed: "\<And>x. live s x \<Longrightarrow> x \<notin> H \<Longrightarrow> filed s x"
    and ginv_adj: "\<And>x y. live s x \<Longrightarrow> x \<notin> H \<Longrightarrow> next (pieces s ! x) = Some y \<Longrightarrow> y \<notin> H \<Longrightarrow>
        is_free (pieces s ! x) \<Longrightarrow> \<not> is_free (pieces s ! y)"
    and ginv_hole: "\<And>x. x \<in> H \<Longrightarrow> live s x \<and> is_free (pieces s ! x)"
    and ginv_hole_bin: "\<And>x i. x \<in> H \<Longrightarrow> i < 20 \<Longrightarrow> x \<notin> set (pieces_bin (bins s ! i))"
  using assms unfolding ginv_def by blast+

lemma bins_okI:
  assumes "length (bins s) = 20"
    "\<And>i. i < 20 \<Longrightarrow> sorted_wrt (PieceCmp (pieces s)) (pieces_bin (bins s ! i))"
    "\<And>i x. i < 20 \<Longrightarrow> x \<in> set (pieces_bin (bins s ! i)) \<Longrightarrow>
       live s x \<and> is_free (pieces s ! x) \<and> bin_num (pieces s ! x) = int i"
  shows "bins_ok s"
  unfolding bins_ok_def using assms by blast

lemma bins_okD:
  assumes "bins_ok s" "i < 20" "x \<in> set (pieces_bin (bins s ! i))"
  shows "live s x" "is_free (pieces s ! x)" "bin_num (pieces s ! x) = int i"
  using assms unfolding bins_ok_def by blast+

text \<open>Marking an in-use Piece free opens a hole.\<close>

lemma mark_free_ginv:
  assumes inv: "ginv H s" and lx: "live s x" and nf: "\<not> is_free (pieces s ! x)"
  shows "ginv (insert x H) (upd s x (\<lambda>p. p\<lparr>is_free := True\<rparr>))"
proof -
  let ?s = "upd s x (\<lambda>p. p\<lparr>is_free := True\<rparr>)"
  have xl: "x < length (pieces s)" using lx by (rule live_length)
  have F [simp]: "next (pieces ?s ! y) = next (pieces s ! y)"
    "prev (pieces ?s ! y) = prev (pieces s ! y)"
    "ptr (pieces ?s ! y) = ptr (pieces s ! y)"
    "size_piece (pieces ?s ! y) = size_piece (pieces s ! y)"
    "bin_num (pieces ?s ! y) = bin_num (pieces s ! y)"
    "is_free (pieces ?s ! y) = (y = x \<or> is_free (pieces s ! y))" for y
    using xl by (simp_all add: nth_pieces_upd)
  have srt: "sorted_wrt (PieceCmp (pieces ?s)) xs = sorted_wrt (PieceCmp (pieces s)) xs" for xs
    by (rule sorted_PieceCmp_cong) simp
  have chn: "chain (pieces ?s) p rs = chain (pieces s) p rs" for p rs
    by (rule chain_cong) simp
  have live [simp]: "live ?s y = live s y" for y
    by (simp add: live_def)
  have notbin: "x \<notin> set (pieces_bin (bins s ! i))" if "i < 20" for i
    using bins_okD(2) [OF ginv_bins_ok [OF inv] that] nf by blast
  show ?thesis
  proof (rule ginvI)
    show "alignment ?s = 512" using ginv_alignment [OF inv] by simp
    show "map_ok ?s" using ginv_map_ok [OF inv] by (simp add: map_ok_alt)
    show "bins_ok ?s"
      using ginv_bins_ok [OF inv] by (simp add: bins_ok_def srt)
    show "recycle_ok ?s"
      using ginv_recycle_ok [OF inv] by (simp add: recycle_ok_def chn)
    show "link_ok ?s y" if "live ?s y" for y
    proof -
      have "link_ok ?s y = link_ok s y" by (simp add: link_ok_def)
      then show ?thesis using ginv_link [OF inv, of y] that by simp
    qed
    show "filed ?s y" if "live ?s y" "y \<notin> insert x H" for y
    proof -
      have "filed ?s y = filed s y" using that by (simp add: filed_def)
      then show ?thesis using ginv_filed [OF inv, of y] that by simp
    qed
    show False if "live ?s y" "y \<notin> insert x H" "next (pieces ?s ! y) = Some z" "z \<notin> insert x H"
      "is_free (pieces ?s ! y)" "is_free (pieces ?s ! z)" for y z
      using ginv_adj [OF inv, of y z] that by simp
    show "live ?s y \<and> is_free (pieces ?s ! y)" if "y \<in> insert x H" for y
      using ginv_hole [OF inv, of y] that lx by auto
    show False if "y \<in> insert x H" "i < 20" "y \<in> set (pieces_bin (bins ?s ! i))" for y i
      using ginv_hole_bin [OF inv, of y i] that notbin by auto
  qed
qed


lemma BinNum4BinSize_nat_lt: "nat (BinNum4BinSize sz) < 20"
  using BinNum4BinSize_range [of sz] by linarith

lemma BinNum4BinSize_nonneg: "0 \<le> BinNum4BinSize sz"
  using BinNum4BinSize_range [of sz] by linarith

lemma bind_e_Inr: "bind_e m k = Inr r \<longleftrightarrow> (\<exists>a. m = Inr a \<and> k a = Inr r)"
  by (cases m) (simp_all add: bind_e_def)

lemma RV_CHECK_Inr: "RV_CHECK c k = Inr r \<longleftrightarrow> c \<and> k = Inr r"
  by (simp add: RV_CHECK_def)

lemma bins_at_Inr: "bins_at bs i = Inr b \<longleftrightarrow> 0 \<le> i \<and> nat i < length bs \<and> b = bs ! nat i"
  by (auto simp: bins_at_def)

lemma link_okD:
  assumes "link_ok s x"
  shows link_ok_next: "\<And>y. next (pieces s ! x) = Some y \<Longrightarrow>
          live s y \<and> prev (pieces s ! y) = Some x \<and>
          ptr (pieces s ! y) = ptr (pieces s ! x) + size_piece (pieces s ! x) \<and>
          0 < size_piece (pieces s ! x)"
    and link_ok_prev: "\<And>y. prev (pieces s ! x) = Some y \<Longrightarrow> live s y \<and> next (pieces s ! y) = Some x"
    and link_ok_size: "size_piece (pieces s ! x) mod 512 = 0"
    and link_ok_end: "ptr (pieces s ! x) + size_piece (pieces s ! x) < 2 ^ 64"
  using assms unfolding link_ok_def by blast+

lemma link_okI:
  assumes "\<And>y. next (pieces s ! x) = Some y \<Longrightarrow>
          live s y \<and> prev (pieces s ! y) = Some x \<and>
          ptr (pieces s ! y) = ptr (pieces s ! x) + size_piece (pieces s ! x) \<and>
          0 < size_piece (pieces s ! x)"
    and "\<And>y. prev (pieces s ! x) = Some y \<Longrightarrow> live s y \<and> next (pieces s ! y) = Some x"
    and "size_piece (pieces s ! x) mod 512 = 0"
    and "ptr (pieces s ! x) + size_piece (pieces s ! x) < 2 ^ 64"
  shows "link_ok s x"
  unfolding link_ok_def using assms by blast

lemma filedD:
  assumes "filed s x" "is_free (pieces s ! x)"
  shows "bin_num (pieces s ! x) = BinNum4BinSize (size_piece (pieces s ! x))"
    and "x \<in> set (pieces_bin (bins s ! nat (bin_num (pieces s ! x))))"
  using assms unfolding filed_def by blast+

lemma PieceCmp_irrefl: "\<not> PieceCmp ps x x"
  by (simp add: PieceCmp_def)

lemma PieceCmp_trans: "PieceCmp ps x y \<Longrightarrow> PieceCmp ps y z \<Longrightarrow> PieceCmp ps x z"
  by (auto simp: PieceCmp_def split: if_splits)

lemma PieceCmp_equiv_live:
  assumes "live s x" "live s y" "\<not> PieceCmp (pieces s) x y" "\<not> PieceCmp (pieces s) y x"
  shows "x = y"
proof -
  from assms(3,4) have "ptr (pieces s ! x) = ptr (pieces s ! y)"
    by (auto simp: PieceCmp_def split: if_splits)
  with assms(1,2) show ?thesis by (rule live_inj)
qed

lemma set_erase_live:
  assumes "\<And>y. y \<in> set xs \<Longrightarrow> live s y" "live s x"
  shows "set_erase (PieceCmp (pieces s)) x xs = filter (\<lambda>y. y \<noteq> x) xs"
  unfolding set_erase_def
proof (rule filter_cong [OF refl])
  fix y assume "y \<in> set xs"
  then have "live s y" by (rule assms(1))
  then show "(PieceCmp (pieces s) y x \<or> PieceCmp (pieces s) x y) = (y \<noteq> x)"
    using PieceCmp_equiv_live [OF _ assms(2), of y] PieceCmp_irrefl [of "pieces s" x] by auto
qed

lemma RemovePieceFromBin_Inr:
  assumes "RemovePieceFromBin s x = Inr s'"
  shows "is_free (pieces s ! x)" "0 \<le> bin_num (pieces s ! x)"
    "nat (bin_num (pieces s ! x)) < length (bins s)"
    "s' = upd (s\<lparr>bins := (bins s)[nat (bin_num (pieces s ! x)) :=
            (bins s ! nat (bin_num (pieces s ! x)))\<lparr>pieces_bin :=
               set_erase (PieceCmp (pieces s)) x
                 (pieces_bin (bins s ! nat (bin_num (pieces s ! x))))\<rparr>]\<rparr>)
          x (\<lambda>p. p\<lparr>bin_num := kInvalidBinNum\<rparr>)"
  using assms
  by (auto simp: RemovePieceFromBin_def RV_CHECK_Inr bind_e_Inr bins_at_Inr Let_def)

text \<open>Taking a filed free Piece out of its bin opens a hole.\<close>

lemma RemovePieceFromBin_ginv:
  assumes inv: "ginv H s" and lx: "live s x" and xH: "x \<notin> H"
    and rm: "RemovePieceFromBin s x = Inr s'"
  shows "ginv (insert x H) s'"
    and "pieces s' = (pieces s)[x := (pieces s ! x)\<lparr>bin_num := kInvalidBinNum\<rparr>]"
    and "ptr2piece s' = ptr2piece s" and "recycle_piece_list s' = recycle_piece_list s"
    and "total_memory_bytes s' = total_memory_bytes s" and "mem_ptr2block s' = mem_ptr2block s"
proof -
  note R = RemovePieceFromBin_Inr [OF rm]
  let ?bn = "nat (bin_num (pieces s ! x))"
  have xl: "x < length (pieces s)" using lx by (rule live_length)
  have bok: "bins_ok s" using inv by (rule ginv_bins_ok)
  have fl: "filed s x" using ginv_filed [OF inv lx xH] .
  have bn: "bin_num (pieces s ! x) = BinNum4BinSize (size_piece (pieces s ! x))"
    and xin: "x \<in> set (pieces_bin (bins s ! ?bn))"
    using filedD [OF fl R(1)] by auto
  have bn20: "?bn < 20" using BinNum4BinSize_nat_lt [of "size_piece (pieces s ! x)"] bn by simp
  have er: "set_erase (PieceCmp (pieces s)) x (pieces_bin (bins s ! ?bn))
            = filter (\<lambda>y. y \<noteq> x) (pieces_bin (bins s ! ?bn))"
    by (rule set_erase_live [OF _ lx]) (rule bins_okD(1) [OF bok bn20])
  show P: "pieces s' = (pieces s)[x := (pieces s ! x)\<lparr>bin_num := kInvalidBinNum\<rparr>]"
    and M: "ptr2piece s' = ptr2piece s" and Rl: "recycle_piece_list s' = recycle_piece_list s"
    and "total_memory_bytes s' = total_memory_bytes s" and "mem_ptr2block s' = mem_ptr2block s"
    by (simp_all add: R(4) pieces_upd)
  have F [simp]: "next (pieces s' ! y) = next (pieces s ! y)"
    "prev (pieces s' ! y) = prev (pieces s ! y)"
    "ptr (pieces s' ! y) = ptr (pieces s ! y)"
    "size_piece (pieces s' ! y) = size_piece (pieces s ! y)"
    "is_free (pieces s' ! y) = is_free (pieces s ! y)"
    "y \<noteq> x \<Longrightarrow> bin_num (pieces s' ! y) = bin_num (pieces s ! y)" for y
    using xl by (simp_all add: P nth_list_update)
  have len [simp]: "length (pieces s') = length (pieces s)" by (simp add: P)
  have B: "pieces_bin (bins s' ! i) = filter (\<lambda>y. y \<noteq> x) (pieces_bin (bins s ! i))" if "i < 20" for i
  proof (cases "i = ?bn")
    case True
    then show ?thesis using R(3) by (simp add: R(4) er)
  next
    case False
    have "x \<notin> set (pieces_bin (bins s ! i))"
      using bins_okD(3) [OF bok that, of x] False R(2) by auto
    then have "filter (\<lambda>y. y \<noteq> x) (pieces_bin (bins s ! i)) = pieces_bin (bins s ! i)"
      by (auto simp: filter_id_conv)
    then show ?thesis using False by (simp add: R(4))
  qed
  have srt: "sorted_wrt (PieceCmp (pieces s')) xs = sorted_wrt (PieceCmp (pieces s)) xs" for xs
    by (rule sorted_PieceCmp_cong) simp
  have chn: "chain (pieces s') p rs = chain (pieces s) p rs" for p rs
    by (rule chain_cong) simp
  have live [simp]: "live s' y = live s y" for y
    by (simp add: live_def M)
  show "ginv (insert x H) s'"
  proof (rule ginvI)
    show "alignment s' = 512" using ginv_alignment [OF inv] by (simp add: R(4))
    show "map_ok s'" using ginv_map_ok [OF inv] by (simp add: map_ok_alt M)
    show "bins_ok s'"
      unfolding bins_ok_def
    proof (intro conjI allI impI ballI)
      show "length (bins s') = 20" using bok by (simp add: bins_ok_def R(4))
    next
      fix i :: nat assume i: "i < 20"
      have "sorted_wrt (PieceCmp (pieces s)) (pieces_bin (bins s ! i))"
        using bok i by (simp add: bins_ok_def)
      then show "sorted_wrt (PieceCmp (pieces s')) (pieces_bin (bins s' ! i))"
        by (simp add: B [OF i] srt sorted_wrt_filter)
    next
      fix i y assume i: "i < (20::nat)" and y: "y \<in> set (pieces_bin (bins s' ! i))"
      then have yin: "y \<in> set (pieces_bin (bins s ! i))" and yx: "y \<noteq> x" by (simp_all add: B)
      show "live s' y" using bins_okD(1) [OF bok i yin] by simp
      show "is_free (pieces s' ! y)" using bins_okD(2) [OF bok i yin] by simp
      show "bin_num (pieces s' ! y) = int i" using bins_okD(3) [OF bok i yin] yx by simp
    qed
    show "recycle_ok s'"
      using ginv_recycle_ok [OF inv] by (simp add: recycle_ok_def chn M Rl)
    show "link_ok s' y" if "live s' y" for y
    proof -
      have "link_ok s' y = link_ok s y" by (simp add: link_ok_def)
      then show ?thesis using ginv_link [OF inv, of y] that by simp
    qed
    show "filed s' y" if "live s' y" "y \<notin> insert x H" for y
    proof -
      have yx: "y \<noteq> x" and yH: "y \<notin> H" using that by auto
      have f: "filed s y" using ginv_filed [OF inv _ yH] that by simp
      show ?thesis
        unfolding filed_def
      proof (intro impI conjI)
        assume "is_free (pieces s' ! y)"
        then have fr: "is_free (pieces s ! y)" by simp
        show "bin_num (pieces s' ! y) = BinNum4BinSize (size_piece (pieces s' ! y))"
          using filedD(1) [OF f fr] yx by simp
        have "nat (bin_num (pieces s ! y)) < 20"
          using filedD(1) [OF f fr] BinNum4BinSize_nat_lt [of "size_piece (pieces s ! y)"] by simp
        then show "y \<in> set (pieces_bin (bins s' ! nat (bin_num (pieces s' ! y))))"
          using filedD(2) [OF f fr] yx by (simp add: B)
      qed
    qed
    show False if "live s' y" "y \<notin> insert x H" "next (pieces s' ! y) = Some z" "z \<notin> insert x H"
      "is_free (pieces s' ! y)" "is_free (pieces s' ! z)" for y z
      using ginv_adj [OF inv, of y z] that by simp
    show "live s' y \<and> is_free (pieces s' ! y)" if "y \<in> insert x H" for y
      using ginv_hole [OF inv, of y] that lx R(1) by auto
    show False if "y \<in> insert x H" "i < 20" "y \<in> set (pieces_bin (bins s' ! i))" for y i
      using ginv_hole_bin [OF inv, of y i] that by (auto simp: B)
  qed
qed


lemma PieceCmp_upd:
  assumes "size_piece (f (pieces s ! h)) = size_piece (pieces s ! h)"
    "ptr (f (pieces s ! h)) = ptr (pieces s ! h)"
  shows "PieceCmp (pieces (upd s h f)) = PieceCmp (pieces s)"
proof (cases "h < length (pieces s)")
  case True
  show ?thesis using assms by (intro ext) (simp add: PieceCmp_def nth_pieces_upd [OF True])
next
  case False
  then show ?thesis by (simp add: pieces_upd list_update_beyond)
qed

lemma set_insert_set: "set_insert lt x xs = Some ys \<Longrightarrow> set ys = insert x (set xs)"
  by (induction xs arbitrary: ys) (auto split: if_splits)

lemma set_insert_sorted:
  assumes tr: "\<And>a b c. lt a b \<Longrightarrow> lt b c \<Longrightarrow> lt a c"
  shows "sorted_wrt lt xs \<Longrightarrow> set_insert lt x xs = Some ys \<Longrightarrow> sorted_wrt lt ys"
proof (induction xs arbitrary: ys)
  case Nil
  then show ?case by auto
next
  case (Cons a xs)
  show ?case
  proof (cases "lt x a")
    case True
    then have "ys = x # a # xs" using Cons.prems(2) by simp
    moreover have "lt x z" if "z \<in> set xs" for z
      using tr [OF True] Cons.prems(1) that by auto
    ultimately show ?thesis using True Cons.prems(1) by auto
  next
    case False
    then obtain zs where zs: "lt a x" "set_insert lt x xs = Some zs" "ys = a # zs"
      using Cons.prems(2) by (auto split: if_splits)
    have "sorted_wrt lt zs" using Cons.IH [OF _ zs(2)] Cons.prems(1) by simp
    moreover have "set zs = insert x (set xs)" using zs(2) by (rule set_insert_set)
    ultimately show ?thesis using zs(1,3) Cons.prems(1) by auto
  qed
qed

lemma InsertPiece2Bin_Inr:
  assumes "InsertPiece2Bin s h = Inr s'"
  obtains ps where "is_free (pieces s ! h)" "bin_num (pieces s ! h) = kInvalidBinNum"
    "nat (BinNum4BinSize (size_piece (pieces s ! h))) < length (bins s)"
    "set_insert (PieceCmp (pieces s)) h
       (pieces_bin (bins s ! nat (BinNum4BinSize (size_piece (pieces s ! h))))) = Some ps"
    "s' = (upd s h (\<lambda>p. p\<lparr>bin_num := BinNum4BinSize (size_piece (pieces s ! h))\<rparr>))
            \<lparr>bins := (bins s)[nat (BinNum4BinSize (size_piece (pieces s ! h))) :=
               (bins s ! nat (BinNum4BinSize (size_piece (pieces s ! h))))\<lparr>pieces_bin := ps\<rparr>]\<rparr>"
  using assms
  by (auto simp: InsertPiece2Bin_def RV_CHECK_Inr bind_e_Inr bins_at_Inr Let_def PieceCmp_upd
      split: option.splits)

text \<open>Filing a hole whose neighbours are in use closes it.\<close>

lemma InsertPiece2Bin_ginv:
  assumes inv: "ginv H s" and hH: "h \<in> H" and ins: "InsertPiece2Bin s h = Inr s'"
    and nx0: "\<forall>y. next (pieces s ! h) = Some y \<longrightarrow> \<not> is_free (pieces s ! y)"
    and pv0: "\<forall>y. prev (pieces s ! h) = Some y \<longrightarrow> \<not> is_free (pieces s ! y)"
  shows "ginv (H - {h}) s'"
    and "pieces s' = (pieces s)[h := (pieces s ! h)\<lparr>bin_num := BinNum4BinSize (size_piece (pieces s ! h))\<rparr>]"
    and "ptr2piece s' = ptr2piece s" and "recycle_piece_list s' = recycle_piece_list s"
    and "total_memory_bytes s' = total_memory_bytes s" and "mem_ptr2block s' = mem_ptr2block s"
    and "h \<in> set (pieces_bin (bins s' ! nat (BinNum4BinSize (size_piece (pieces s ! h)))))"
proof -
  note nx = nx0 [rule_format] and pv = pv0 [rule_format]
  let ?bn = "BinNum4BinSize (size_piece (pieces s ! h))"
  from ins obtain ps where I: "is_free (pieces s ! h)" "bin_num (pieces s ! h) = kInvalidBinNum"
    "nat ?bn < length (bins s)"
    "set_insert (PieceCmp (pieces s)) h (pieces_bin (bins s ! nat ?bn)) = Some ps"
    "s' = (upd s h (\<lambda>p. p\<lparr>bin_num := ?bn\<rparr>))\<lparr>bins := (bins s)[nat ?bn :=
               (bins s ! nat ?bn)\<lparr>pieces_bin := ps\<rparr>]\<rparr>"
    by (rule InsertPiece2Bin_Inr)
  have lh: "live s h" using ginv_hole [OF inv hH] by simp
  have hl: "h < length (pieces s)" using lh by (rule live_length)
  have bok: "bins_ok s" using inv by (rule ginv_bins_ok)
  have bn20: "nat ?bn < 20" by (rule BinNum4BinSize_nat_lt)
  show P: "pieces s' = (pieces s)[h := (pieces s ! h)\<lparr>bin_num := ?bn\<rparr>]"
    and M: "ptr2piece s' = ptr2piece s" and Rl: "recycle_piece_list s' = recycle_piece_list s"
    and "total_memory_bytes s' = total_memory_bytes s" and "mem_ptr2block s' = mem_ptr2block s"
    by (simp_all add: I(5) pieces_upd)
  have A: "alignment s' = alignment s" by (simp add: I(5))
  have Bn: "bins s' = (bins s)[nat ?bn := (bins s ! nat ?bn)\<lparr>pieces_bin := ps\<rparr>]"
    by (simp add: I(5))
  have F [simp]: "next (pieces s' ! y) = next (pieces s ! y)"
    "prev (pieces s' ! y) = prev (pieces s ! y)"
    "ptr (pieces s' ! y) = ptr (pieces s ! y)"
    "size_piece (pieces s' ! y) = size_piece (pieces s ! y)"
    "is_free (pieces s' ! y) = is_free (pieces s ! y)"
    "y \<noteq> h \<Longrightarrow> bin_num (pieces s' ! y) = bin_num (pieces s ! y)" for y
    using hl by (simp_all add: P nth_list_update)
  have Fh: "bin_num (pieces s' ! h) = ?bn" using hl by (simp add: P)
  have len [simp]: "length (pieces s') = length (pieces s)" by (simp add: P)
  have B: "set (pieces_bin (bins s' ! i)) =
      (if i = nat ?bn then insert h (set (pieces_bin (bins s ! i))) else set (pieces_bin (bins s ! i)))"
    if "i < 20" for i
    using I(3) set_insert_set [OF I(4)] by (simp add: Bn nth_list_update)
  show hin: "h \<in> set (pieces_bin (bins s' ! nat ?bn))" using B [OF bn20] by simp
  have srt: "sorted_wrt (PieceCmp (pieces s')) xs = sorted_wrt (PieceCmp (pieces s)) xs" for xs
    by (rule sorted_PieceCmp_cong) simp
  have chn: "chain (pieces s') p rs = chain (pieces s) p rs" for p rs
    by (rule chain_cong) simp
  have live [simp]: "live s' y = live s y" for y
    by (simp add: live_def M)
  show "ginv (H - {h}) s'"
  proof (rule ginvI)
    show "alignment s' = 512" using ginv_alignment [OF inv] by (simp add: A)
    show "map_ok s'" using ginv_map_ok [OF inv] by (simp add: map_ok_alt M)
    show "bins_ok s'"
    proof (rule bins_okI)
      show "length (bins s') = 20" using bok by (simp add: bins_ok_def Bn)
    next
      fix i :: nat assume i: "i < 20"
      have so: "sorted_wrt (PieceCmp (pieces s)) (pieces_bin (bins s ! i))"
        using bok i by (simp add: bins_ok_def)
      show "sorted_wrt (PieceCmp (pieces s')) (pieces_bin (bins s' ! i))"
      proof (cases "i = nat ?bn")
        case True
        have "sorted_wrt (PieceCmp (pieces s)) ps"
          using set_insert_sorted [OF PieceCmp_trans _ I(4)] so True by simp
        then show ?thesis using True I(3) by (simp add: srt Bn)
      next
        case False
        then show ?thesis using so by (simp add: srt Bn)
      qed
    next
      fix i y assume i: "i < (20::nat)" and y: "y \<in> set (pieces_bin (bins s' ! i))"
      show "live s' y \<and> is_free (pieces s' ! y) \<and> bin_num (pieces s' ! y) = int i"
      proof (cases "y = h")
        case True
        have "h \<notin> set (pieces_bin (bins s ! i))" using ginv_hole_bin [OF inv hH i] .
        then have "i = nat ?bn" using y True B [OF i] by (auto split: if_splits)
        then show ?thesis using True lh I(1) Fh BinNum4BinSize_nonneg [of "size_piece (pieces s ! h)"] by simp
      next
        case False
        then have "y \<in> set (pieces_bin (bins s ! i))" using y B [OF i] by (auto split: if_splits)
        then show ?thesis using bins_okD [OF bok i] False by simp
      qed
    qed
    show "recycle_ok s'"
      using ginv_recycle_ok [OF inv] by (simp add: recycle_ok_def chn M Rl)
    show "link_ok s' y" if "live s' y" for y
    proof -
      have "link_ok s' y = link_ok s y" by (simp add: link_ok_def)
      then show ?thesis using ginv_link [OF inv, of y] that by simp
    qed
    show "filed s' y" if "live s' y" "y \<notin> H - {h}" for y
    proof (cases "y = h")
      case True
      then show ?thesis using hin Fh BinNum4BinSize_nonneg [of "size_piece (pieces s ! h)"]
        by (simp add: filed_def)
    next
      case False
      then have yH: "y \<notin> H" using that by simp
      have f: "filed s y" using ginv_filed [OF inv _ yH] that by simp
      show ?thesis
        unfolding filed_def
      proof (intro impI conjI)
        assume "is_free (pieces s' ! y)"
        then have fr: "is_free (pieces s ! y)" by simp
        show "bin_num (pieces s' ! y) = BinNum4BinSize (size_piece (pieces s' ! y))"
          using filedD(1) [OF f fr] False by simp
        have "nat (bin_num (pieces s ! y)) < 20"
          using filedD(1) [OF f fr] BinNum4BinSize_nat_lt [of "size_piece (pieces s ! y)"] by simp
        then show "y \<in> set (pieces_bin (bins s' ! nat (bin_num (pieces s' ! y))))"
          using filedD(2) [OF f fr] False by (auto simp: B)
      qed
    qed
    show False if a: "live s' y" "y \<notin> H - {h}" "next (pieces s' ! y) = Some z" "z \<notin> H - {h}"
      "is_free (pieces s' ! y)" "is_free (pieces s' ! z)" for y z
    proof -
      have ly: "live s y" using a(1) by simp
      have nyz: "next (pieces s ! y) = Some z" using a(3) by simp
      consider "y = h" | "y \<noteq> h" "z = h" | "y \<notin> H" "z \<notin> H" using a(2,4) by blast
      then show False
      proof cases
        case 1
        then show False using nx [of z] nyz a(6) by simp
      next
        case 2
        have "prev (pieces s ! h) = Some y"
          using link_ok_next [OF ginv_link [OF inv ly] nyz] 2 by simp
        then show False using pv [of y] a(5) by simp
      next
        case 3
        then show False using ginv_adj [OF inv ly _ nyz] a(5,6) by simp
      qed
    qed
    show "live s' y \<and> is_free (pieces s' ! y)" if "y \<in> H - {h}" for y
      using ginv_hole [OF inv, of y] that by auto
    show False if "y \<in> H - {h}" "i < 20" "y \<in> set (pieces_bin (bins s' ! i))" for y i
      using ginv_hole_bin [OF inv, of y i] that by (auto simp: B split: if_splits)
  qed
qed


lemma Merge_fields:
  assumes mg: "MergeNeighbourFreePiece s lhs rhs = Inr s'"
    and lr: "lhs \<noteq> rhs" and ll: "lhs < length (pieces s)" and rl: "rhs < length (pieces s)"
    and nn: "\<And>n. next (pieces s ! rhs) = Some n \<Longrightarrow> n \<noteq> lhs \<and> n \<noteq> rhs \<and> n < length (pieces s)"
    and nowrap: "size_piece (pieces s ! lhs) + size_piece (pieces s ! rhs) < 2 ^ 64"
  shows "length (pieces s') = length (pieces s)"
    and "next (pieces s' ! y) =
          (if y = rhs then recycle_piece_list s else if y = lhs then next (pieces s ! rhs)
           else next (pieces s ! y))"
    and "prev (pieces s' ! y) =
          (if y = rhs then None else if next (pieces s ! rhs) = Some y then Some lhs
           else prev (pieces s ! y))"
    and "size_piece (pieces s' ! y) =
          (if y = rhs then 0
           else if y = lhs then size_piece (pieces s ! lhs) + size_piece (pieces s ! rhs)
           else size_piece (pieces s ! y))"
    and "ptr (pieces s' ! y) = (if y = rhs then 0 else ptr (pieces s ! y))"
    and "is_free (pieces s' ! y) = (y = rhs \<or> is_free (pieces s ! y))"
    and "bin_num (pieces s' ! y) = (if y = rhs then kInvalidBinNum else bin_num (pieces s ! y))"
    and "bins s' = bins s"
    and "ptr2piece s' = AList.delete (ptr (pieces s ! rhs)) (ptr2piece s)"
    and "recycle_piece_list s' = Some rhs"
    and "alignment s' = alignment s"
    and "total_memory_bytes s' = total_memory_bytes s"
    and "mem_ptr2block s' = mem_ptr2block s"
proof -
  show "length (pieces s') = length (pieces s)"
    using mg
    by (auto simp: MergeNeighbourFreePiece_def RV_CHECK_Inr bind_e_Inr UnMarkPiece_def
        DeallocatePiece_def Let_def upd_def split: option.splits)
  show "bins s' = bins s" "recycle_piece_list s' = Some rhs" "alignment s' = alignment s"
    "total_memory_bytes s' = total_memory_bytes s" "mem_ptr2block s' = mem_ptr2block s"
    using mg
    by (auto simp: MergeNeighbourFreePiece_def RV_CHECK_Inr bind_e_Inr UnMarkPiece_def
        DeallocatePiece_def Let_def upd_def split: option.splits)
  show "ptr2piece s' = AList.delete (ptr (pieces s ! rhs)) (ptr2piece s)"
    using mg lr ll rl nn
    by (auto simp: MergeNeighbourFreePiece_def RV_CHECK_Inr bind_e_Inr UnMarkPiece_def
        DeallocatePiece_def Let_def upd_def nth_list_update split: option.splits)
  show "next (pieces s' ! y) =
          (if y = rhs then recycle_piece_list s else if y = lhs then next (pieces s ! rhs)
           else next (pieces s ! y))"
    using mg lr ll rl nn
    by (auto simp: MergeNeighbourFreePiece_def RV_CHECK_Inr bind_e_Inr UnMarkPiece_def
        DeallocatePiece_def Let_def upd_def nth_list_update split: option.splits)
  show "prev (pieces s' ! y) =
          (if y = rhs then None else if next (pieces s ! rhs) = Some y then Some lhs
           else prev (pieces s ! y))"
    using mg lr ll rl nn
    by (auto simp: MergeNeighbourFreePiece_def RV_CHECK_Inr bind_e_Inr UnMarkPiece_def
        DeallocatePiece_def Let_def upd_def nth_list_update split: option.splits)
  show "size_piece (pieces s' ! y) =
          (if y = rhs then 0
           else if y = lhs then size_piece (pieces s ! lhs) + size_piece (pieces s ! rhs)
           else size_piece (pieces s ! y))"
    using mg lr ll rl nn nowrap
    by (auto simp: MergeNeighbourFreePiece_def RV_CHECK_Inr bind_e_Inr UnMarkPiece_def
        DeallocatePiece_def Let_def upd_def nth_list_update wrap64_def split: option.splits)
  show "ptr (pieces s' ! y) = (if y = rhs then 0 else ptr (pieces s ! y))"
    using mg lr ll rl nn
    by (auto simp: MergeNeighbourFreePiece_def RV_CHECK_Inr bind_e_Inr UnMarkPiece_def
        DeallocatePiece_def Let_def upd_def nth_list_update split: option.splits)
  show "is_free (pieces s' ! y) = (y = rhs \<or> is_free (pieces s ! y))"
    using mg lr ll rl nn
    by (auto simp: MergeNeighbourFreePiece_def RV_CHECK_Inr bind_e_Inr UnMarkPiece_def
        DeallocatePiece_def Let_def upd_def nth_list_update split: option.splits if_splits)
  show "bin_num (pieces s' ! y) = (if y = rhs then kInvalidBinNum else bin_num (pieces s ! y))"
    using mg lr ll rl nn
    by (auto simp: MergeNeighbourFreePiece_def RV_CHECK_Inr bind_e_Inr UnMarkPiece_def
        DeallocatePiece_def Let_def upd_def nth_list_update split: option.splits)
qed

lemma Merge_checks:
  assumes "MergeNeighbourFreePiece s lhs rhs = Inr s'"
  shows "is_free (pieces s ! lhs)" "is_free (pieces s ! rhs)" "next (pieces s ! lhs) = Some rhs"
    "prev (pieces s ! rhs) = Some lhs"
  using assms by (auto simp: MergeNeighbourFreePiece_def RV_CHECK_Inr)


lemma map_of_delete_Some:
  "map_of (AList.delete k al) a = Some x \<longleftrightarrow> a \<noteq> k \<and> map_of al a = Some x"
  by (auto simp: AList.delete_conv)

lemma in_set_delete: "(a, x) \<in> set (AList.delete k al) \<longleftrightarrow> a \<noteq> k \<and> (a, x) \<in> set al"
  by (auto simp: AList.delete_eq)

text \<open>Merging two adjacent holes leaves the lower one as the only hole of the two.\<close>

lemma Merge_ginv:
  assumes inv: "ginv H s" and lH: "lhs \<in> H" and rH: "rhs \<in> H"
    and mg: "MergeNeighbourFreePiece s lhs rhs = Inr s'"
  shows "ginv (H - {rhs}) s'"
    and "\<And>y. live s' y \<longleftrightarrow> live s y \<and> y \<noteq> rhs"
    and "lhs \<noteq> rhs"
    and "\<And>y. y \<noteq> rhs \<Longrightarrow> is_free (pieces s' ! y) = is_free (pieces s ! y)"
    and "next (pieces s' ! lhs) = next (pieces s ! rhs)"
    and "prev (pieces s' ! lhs) = prev (pieces s ! lhs)"
    and "\<And>y. y \<noteq> rhs \<Longrightarrow> y \<noteq> lhs \<Longrightarrow> next (pieces s' ! y) = next (pieces s ! y)"
    and "\<And>y. y \<noteq> rhs \<Longrightarrow> next (pieces s ! rhs) \<noteq> Some y \<Longrightarrow> prev (pieces s' ! y) = prev (pieces s ! y)"
    and "total_memory_bytes s' = total_memory_bytes s" and "mem_ptr2block s' = mem_ptr2block s"
    and "size_piece (pieces s' ! lhs) = size_piece (pieces s ! lhs) + size_piece (pieces s ! rhs)"
    and "\<And>y. y \<noteq> rhs \<Longrightarrow> ptr (pieces s' ! y) = ptr (pieces s ! y)"
    and "\<And>y. y \<noteq> rhs \<Longrightarrow> y \<noteq> lhs \<Longrightarrow> size_piece (pieces s' ! y) = size_piece (pieces s ! y)"
proof -
  note C = Merge_checks [OF mg]
  have ll: "live s lhs" and lr: "live s rhs" using ginv_hole [OF inv] lH rH by auto
  note Ll = link_okD [OF ginv_link [OF inv ll]]
  note Lr = link_okD [OF ginv_link [OF inv lr]]
  have pr: "ptr (pieces s ! rhs) = ptr (pieces s ! lhs) + size_piece (pieces s ! lhs)"
    and sl: "0 < size_piece (pieces s ! lhs)"
    using Ll(1) [OF C(3)] by auto
  show ne: "lhs \<noteq> rhs" using pr sl by auto
  have nn: "live s n \<and> prev (pieces s ! n) = Some rhs \<and> n \<noteq> lhs \<and> n \<noteq> rhs \<and> n < length (pieces s)
      \<and> ptr (pieces s ! n) = ptr (pieces s ! rhs) + size_piece (pieces s ! rhs)"
    if "next (pieces s ! rhs) = Some n" for n
    using Lr(1) [OF that] pr sl by (auto simp: live_length)
  have nowrap: "size_piece (pieces s ! lhs) + size_piece (pieces s ! rhs) < 2 ^ 64"
    using Lr(4) pr by simp
  note F = Merge_fields [OF mg ne live_length [OF ll] live_length [OF lr] _ nowrap]
  have [simp]: "length (pieces s') = length (pieces s)" using F(1) nn by blast
  have Fn: "next (pieces s' ! y) =
          (if y = rhs then recycle_piece_list s else if y = lhs then next (pieces s ! rhs)
           else next (pieces s ! y))" for y using F(2) nn by blast
  have Fp: "prev (pieces s' ! y) =
          (if y = rhs then None else if next (pieces s ! rhs) = Some y then Some lhs
           else prev (pieces s ! y))" for y using F(3) nn by blast
  have Fs: "size_piece (pieces s' ! y) =
          (if y = rhs then 0
           else if y = lhs then size_piece (pieces s ! lhs) + size_piece (pieces s ! rhs)
           else size_piece (pieces s ! y))" for y using F(4) nn by blast
  have Fa: "ptr (pieces s' ! y) = (if y = rhs then 0 else ptr (pieces s ! y))" for y
    using F(5) nn by blast
  have Ff: "is_free (pieces s' ! y) = (y = rhs \<or> is_free (pieces s ! y))" for y
    using F(6) nn by blast
  have Fb: "bin_num (pieces s' ! y) = (if y = rhs then kInvalidBinNum else bin_num (pieces s ! y))" for y
    using F(7) nn by blast
  have B: "bins s' = bins s" using F(8) nn by blast
  have M: "ptr2piece s' = AList.delete (ptr (pieces s ! rhs)) (ptr2piece s)" using F(9) nn by blast
  have Rl: "recycle_piece_list s' = Some rhs" using F(10) nn by blast
  have A: "alignment s' = alignment s" using F(11) nn by blast
  show "total_memory_bytes s' = total_memory_bytes s" "mem_ptr2block s' = mem_ptr2block s"
    using F(12,13) nn by blast+
  have mok: "map_ok s" using inv by (rule ginv_map_ok)
  have bok: "bins_ok s" using inv by (rule ginv_bins_ok)
  have unm: "rhs \<notin> snd ` set (ptr2piece s')"
  proof
    assume "rhs \<in> snd ` set (ptr2piece s')"
    then obtain a where "(a, rhs) \<in> set (ptr2piece s')" by force
    then have "a \<noteq> ptr (pieces s ! rhs)" "(a, rhs) \<in> set (ptr2piece s)"
      by (simp_all add: M in_set_delete)
    then show False using mok by (auto simp: map_ok_alt)
  qed
  show live: "live s' y \<longleftrightarrow> live s y \<and> y \<noteq> rhs" for y
  proof (cases "y = rhs")
    case True
    then show ?thesis using unm live_mapped [of s' rhs] by auto
  next
    case False
    have "ptr (pieces s ! y) \<noteq> ptr (pieces s ! rhs)" if "live s y"
      using live_inj [OF that lr] False by auto
    then show ?thesis using False by (auto simp: live_def M Fa map_of_delete_Some)
  qed
  show "is_free (pieces s' ! y) = is_free (pieces s ! y)" if "y \<noteq> rhs" for y
    using that by (simp add: Ff)
  show "next (pieces s' ! lhs) = next (pieces s ! rhs)" using ne by (simp add: Fn)
  show "prev (pieces s' ! lhs) = prev (pieces s ! lhs)" using ne nn by (auto simp: Fp)
  show "next (pieces s' ! y) = next (pieces s ! y)" if "y \<noteq> rhs" "y \<noteq> lhs" for y
    using that by (simp add: Fn)
  show "prev (pieces s' ! y) = prev (pieces s ! y)" if "y \<noteq> rhs" "next (pieces s ! rhs) \<noteq> Some y" for y
    using that by (simp add: Fp)
  show "size_piece (pieces s' ! lhs) = size_piece (pieces s ! lhs) + size_piece (pieces s ! rhs)"
    using ne by (simp add: Fs)
  show "ptr (pieces s' ! y) = ptr (pieces s ! y)" if "y \<noteq> rhs" for y
    using that by (simp add: Fa)
  show "size_piece (pieces s' ! y) = size_piece (pieces s ! y)" if "y \<noteq> rhs" "y \<noteq> lhs" for y
    using that by (simp add: Fs)
  have notbin: "y \<noteq> lhs \<and> y \<noteq> rhs" if "i < 20" "y \<in> set (pieces_bin (bins s ! i))" for i y
    using ginv_hole_bin [OF inv lH that(1)] ginv_hole_bin [OF inv rH that(1)] that(2) by auto
  show "ginv (H - {rhs}) s'"
  proof (rule ginvI)
    show "alignment s' = 512" using ginv_alignment [OF inv] by (simp add: A)
    show "map_ok s'"
      unfolding map_ok_alt
    proof (intro allI impI)
      fix a x assume "(a, x) \<in> set (ptr2piece s')"
      then have ax: "a \<noteq> ptr (pieces s ! rhs)" "(a, x) \<in> set (ptr2piece s)"
        by (simp_all add: M in_set_delete)
      then have "x < length (pieces s)" "ptr (pieces s ! x) = a" using mok by (auto simp: map_ok_alt)
      moreover from this ax(1) have "x \<noteq> rhs" by auto
      ultimately show "x < length (pieces s') \<and> ptr (pieces s' ! x) = a" by (simp add: Fa)
    qed
    show "bins_ok s'"
    proof (rule bins_okI)
      show "length (bins s') = 20" using bok by (simp add: bins_ok_def B)
    next
      fix i :: nat assume i: "i < 20"
      have "sorted_wrt (PieceCmp (pieces s')) (pieces_bin (bins s ! i))
          = sorted_wrt (PieceCmp (pieces s)) (pieces_bin (bins s ! i))"
        by (rule sorted_PieceCmp_cong) (use notbin [OF i] in \<open>auto simp: Fs Fa\<close>)
      then show "sorted_wrt (PieceCmp (pieces s')) (pieces_bin (bins s' ! i))"
        using bok i by (simp add: bins_ok_def B)
    next
      fix i x assume i: "i < (20::nat)" and x: "x \<in> set (pieces_bin (bins s' ! i))"
      then have xin: "x \<in> set (pieces_bin (bins s ! i))" by (simp add: B)
      then show "live s' x \<and> is_free (pieces s' ! x) \<and> bin_num (pieces s' ! x) = int i"
        using bins_okD [OF bok i xin] notbin [OF i xin] by (simp add: live Ff Fb)
    qed
    show "recycle_ok s'"
    proof -
      from ginv_recycle_ok [OF inv] obtain rs where
        rs: "chain (pieces s) (recycle_piece_list s) rs"
          "\<And>x. x \<in> set rs \<Longrightarrow> x < length (pieces s) \<and> x \<notin> snd ` set (ptr2piece s)"
        unfolding recycle_ok_def by blast
      have nl: "x \<noteq> lhs \<and> x \<noteq> rhs" if "x \<in> set rs" for x
        using rs(2) [OF that] live_mapped [OF ll] live_mapped [OF lr] by auto
      have "chain (pieces s') (recycle_piece_list s) rs = chain (pieces s) (recycle_piece_list s) rs"
        by (rule chain_cong) (use nl in \<open>simp add: Fn\<close>)
      then have "chain (pieces s') (recycle_piece_list s') (rhs # rs)"
        using rs(1) by (simp add: Rl Fn)
      moreover have "x < length (pieces s') \<and> x \<notin> snd ` set (ptr2piece s')" if "x \<in> set (rhs # rs)" for x
      proof (cases "x = rhs")
        case True
        then show ?thesis using unm live_length [OF lr] by simp
      next
        case False
        then have "x \<in> set rs" using that by simp
        from rs(2) [OF this] show ?thesis by (force simp: M in_set_delete)
      qed
      ultimately show ?thesis unfolding recycle_ok_def by blast
    qed
    show "link_ok s' y" if "live s' y" for y
    proof -
      have ly: "live s y" and yr: "y \<noteq> rhs" using that by (simp_all add: live)
      note Ly = link_okD [OF ginv_link [OF inv ly]]
      show ?thesis
      proof (rule link_okI)
        fix z assume nz: "next (pieces s' ! y) = Some z"
        show "live s' z \<and> prev (pieces s' ! z) = Some y \<and>
            ptr (pieces s' ! z) = ptr (pieces s' ! y) + size_piece (pieces s' ! y) \<and>
            0 < size_piece (pieces s' ! y)"
        proof (cases "y = lhs")
          case True
          then have "next (pieces s ! rhs) = Some z" using nz ne by (simp add: Fn)
          from nn [OF this] this show ?thesis using True ne pr sl by (simp add: live Fp Fa Fs)
        next
          case False
          then have nyz: "next (pieces s ! y) = Some z" using nz yr by (simp add: Fn)
          from Ly(1) [OF nyz] have z: "live s z" "prev (pieces s ! z) = Some y"
            "ptr (pieces s ! z) = ptr (pieces s ! y) + size_piece (pieces s ! y)"
            "0 < size_piece (pieces s ! y)" by auto
          have zr: "z \<noteq> rhs" using z(2) C(4) False by auto
          have "next (pieces s ! rhs) \<noteq> Some z" using nn [of z] z(2) yr by auto
          then show ?thesis using z zr False yr by (simp add: live Fp Fa Fs)
        qed
      next
        fix z assume pz: "prev (pieces s' ! y) = Some z"
        show "live s' z \<and> next (pieces s' ! z) = Some y"
        proof (cases "next (pieces s ! rhs) = Some y")
          case True
          then have "z = lhs" using pz yr by (simp add: Fp)
          then show ?thesis using True ll ne by (simp add: live Fn)
        next
          case False
          then have pyz: "prev (pieces s ! y) = Some z" using pz yr by (simp add: Fp)
          from Ly(2) [OF pyz] have z: "live s z" "next (pieces s ! z) = Some y" by auto
          have zr: "z \<noteq> rhs" using z(2) False by auto
          have zl: "z \<noteq> lhs" using z(2) C(3) yr by auto
          show ?thesis using z zr zl by (simp add: live Fn)
        qed
      next
        show "size_piece (pieces s' ! y) mod 512 = 0"
          using Ly(3) Ll(3) Lr(3) yr by (auto simp: Fs mod_add_eq [symmetric, of "size_piece (pieces s ! lhs)"])
      next
        show "ptr (pieces s' ! y) + size_piece (pieces s' ! y) < 2 ^ 64"
          using Ly(4) Lr(4) pr yr by (auto simp: Fs Fa)
      qed
    qed
    show "filed s' y" if "live s' y" "y \<notin> H - {rhs}" for y
    proof -
      have ly: "live s y" and yr: "y \<noteq> rhs" using that by (simp_all add: live)
      then have yH: "y \<notin> H" and yl: "y \<noteq> lhs" using that(2) lH by auto
      have "filed s' y = filed s y" using yr yl by (simp add: filed_def Ff Fb Fs B)
      then show ?thesis using ginv_filed [OF inv ly yH] by simp
    qed
    show False if a: "live s' y" "y \<notin> H - {rhs}" "next (pieces s' ! y) = Some z" "z \<notin> H - {rhs}"
      "is_free (pieces s' ! y)" "is_free (pieces s' ! z)" for y z
    proof -
      have ly: "live s y" and yr: "y \<noteq> rhs" using a(1) by (simp_all add: live)
      then have yH: "y \<notin> H" and yl: "y \<noteq> lhs" using a(2) lH by auto
      have nyz: "next (pieces s ! y) = Some z" using a(3) yr yl by (simp add: Fn)
      have zr: "z \<noteq> rhs" using link_ok_next [OF ginv_link [OF inv ly] nyz] C(4) yl by auto
      then have zH: "z \<notin> H" using a(4) by simp
      show False using ginv_adj [OF inv ly yH nyz zH] a(5,6) yr zr by (simp add: Ff)
    qed
    show "live s' y \<and> is_free (pieces s' ! y)" if "y \<in> H - {rhs}" for y
      using ginv_hole [OF inv, of y] that by (simp add: live Ff)
    show False if "y \<in> H - {rhs}" "i < 20" "y \<in> set (pieces_bin (bins s' ! i))" for y i
      using ginv_hole_bin [OF inv, of y i] that by (simp add: B)
  qed
qed


lemma RemovePieceFromBin_fields:
  assumes "pieces s' = (pieces s)[x := (pieces s ! x)\<lparr>bin_num := b\<rparr>]"
  shows "next (pieces s' ! y) = next (pieces s ! y)"
    "prev (pieces s' ! y) = prev (pieces s ! y)"
    "ptr (pieces s' ! y) = ptr (pieces s ! y)"
    "size_piece (pieces s' ! y) = size_piece (pieces s ! y)"
    "is_free (pieces s' ! y) = is_free (pieces s ! y)"
    "length (pieces s') = length (pieces s)"
  by (cases "x < length (pieces s)"; cases "y = x"; simp add: assms list_update_beyond)+

lemma live_ptr_cong:
  assumes "ptr2piece s' = ptr2piece s" "length (pieces s') = length (pieces s)"
    "\<And>y. ptr (pieces s' ! y) = ptr (pieces s ! y)"
  shows "live s' y = live s y"
  by (simp add: live_def assms)

lemma Deallocate_merge_next_ginv:
  assumes inv: "ginv {x} s1" and ab: "Deallocate_merge_next s1 x = Inr s2"
  shows "ginv {x} s2"
    and "\<And>y. next (pieces s2 ! x) = Some y \<Longrightarrow> \<not> is_free (pieces s2 ! y)"
    and "prev (pieces s2 ! x) = prev (pieces s1 ! x)"
    and "ptr (pieces s2 ! x) = ptr (pieces s1 ! x)"
    and "size_piece (pieces s2 ! x) = size_piece (pieces s1 ! x) +
          (case next (pieces s1 ! x) of None \<Rightarrow> 0
           | Some n \<Rightarrow> if is_free (pieces s1 ! n) then size_piece (pieces s1 ! n) else 0)"
    and "\<And>y. live s2 y \<longleftrightarrow> live s1 y \<and>
           \<not> (next (pieces s1 ! x) = Some y \<and> is_free (pieces s1 ! y))"
    and "\<And>y. live s2 y \<Longrightarrow> y \<noteq> x \<Longrightarrow>
           ptr (pieces s2 ! y) = ptr (pieces s1 ! y) \<and>
           size_piece (pieces s2 ! y) = size_piece (pieces s1 ! y) \<and>
           is_free (pieces s2 ! y) = is_free (pieces s1 ! y)"
    and "total_memory_bytes s2 = total_memory_bytes s1" and "mem_ptr2block s2 = mem_ptr2block s1"
proof -
  have lx: "live s1 x" and fx: "is_free (pieces s1 ! x)" using ginv_hole [OF inv, of x] by auto
  note Lx = link_okD [OF ginv_link [OF inv lx]]
  consider (none) "next (pieces s1 ! x) = None" "s2 = s1"
    | (used) n where "next (pieces s1 ! x) = Some n" "\<not> is_free (pieces s1 ! n)" "s2 = s1"
    | (merge) n sa where "next (pieces s1 ! x) = Some n" "is_free (pieces s1 ! n)"
        "RemovePieceFromBin s1 n = Inr sa" "MergeNeighbourFreePiece sa x n = Inr s2"
    using ab by (auto simp: Deallocate_merge_next_def bind_e_Inr split: option.splits if_splits)
  then have "ginv {x} s2
    \<and> (\<forall>y. next (pieces s2 ! x) = Some y \<longrightarrow> \<not> is_free (pieces s2 ! y))
    \<and> prev (pieces s2 ! x) = prev (pieces s1 ! x)
    \<and> ptr (pieces s2 ! x) = ptr (pieces s1 ! x)
    \<and> size_piece (pieces s2 ! x) = size_piece (pieces s1 ! x) +
          (case next (pieces s1 ! x) of None \<Rightarrow> 0
           | Some n \<Rightarrow> if is_free (pieces s1 ! n) then size_piece (pieces s1 ! n) else 0)
    \<and> (\<forall>y. live s2 y \<longleftrightarrow> live s1 y \<and>
           \<not> (next (pieces s1 ! x) = Some y \<and> is_free (pieces s1 ! y)))
    \<and> (\<forall>y. live s2 y \<longrightarrow> y \<noteq> x \<longrightarrow>
           ptr (pieces s2 ! y) = ptr (pieces s1 ! y) \<and>
           size_piece (pieces s2 ! y) = size_piece (pieces s1 ! y) \<and>
           is_free (pieces s2 ! y) = is_free (pieces s1 ! y))
    \<and> total_memory_bytes s2 = total_memory_bytes s1 \<and> mem_ptr2block s2 = mem_ptr2block s1"
  proof cases
    case none
    then show ?thesis using inv by simp
  next
    case (used n)
    then show ?thesis using inv by auto
  next
    case (merge n sa)
    have n: "live s1 n" "ptr (pieces s1 ! n) = ptr (pieces s1 ! x) + size_piece (pieces s1 ! x)"
      "0 < size_piece (pieces s1 ! x)"
      using Lx(1) [OF merge(1)] by auto
    have nx: "n \<noteq> x" using n(2,3) by auto
    have nH: "n \<notin> {x}" using nx by simp
    note RB = RemovePieceFromBin_ginv [OF inv n(1) nH merge(3)]
    note Fa = RemovePieceFromBin_fields [OF RB(2)]
    have la: "live sa y = live s1 y" for y
      by (rule live_ptr_cong) (simp_all add: RB(3) Fa)
    have hx: "x \<in> insert n {x}" and hn: "n \<in> insert n {x}" by simp_all
    note MG = Merge_ginv [OF RB(1) hx hn merge(4)]
    have g2: "ginv {x} s2" using MG(1) nx by (simp add: insert_Diff_if)
    have closed: "\<not> is_free (pieces s2 ! y)" if "next (pieces s2 ! x) = Some y" for y
    proof -
      have nny: "next (pieces s1 ! n) = Some y" using that MG(5) Fa(1) by simp
      note Ln = link_okD [OF ginv_link [OF inv n(1)]]
      from Ln(1) [OF nny] have y: "ptr (pieces s1 ! y) = ptr (pieces s1 ! n) + size_piece (pieces s1 ! n)"
        "0 < size_piece (pieces s1 ! n)" by auto
      have yx: "y \<noteq> x" and yn: "y \<noteq> n" using y n(2,3) by auto
      have "\<not> is_free (pieces s1 ! y)"
        using ginv_adj [OF inv n(1) nH nny _ merge(2)] yx by simp
      then show ?thesis using MG(4) [OF yn] Fa(5) by simp
    qed
    have "prev (pieces s2 ! x) = prev (pieces s1 ! x)" using MG(6) Fa(2) by simp
    moreover have "ptr (pieces s2 ! x) = ptr (pieces s1 ! x)" using MG(12) [of x] nx Fa(3) by simp
    moreover have "size_piece (pieces s2 ! x) = size_piece (pieces s1 ! x) + size_piece (pieces s1 ! n)"
      using MG(11) Fa(4) by simp
    moreover have "live s2 y \<longleftrightarrow> live s1 y \<and> y \<noteq> n" for y using MG(2) la by simp
    moreover have "ptr (pieces s2 ! y) = ptr (pieces s1 ! y) \<and>
           size_piece (pieces s2 ! y) = size_piece (pieces s1 ! y) \<and>
           is_free (pieces s2 ! y) = is_free (pieces s1 ! y)" if "y \<noteq> n" "y \<noteq> x" for y
      using MG(4) [OF that(1)] MG(12) [OF that(1)] MG(13) [OF that] Fa by simp
    moreover have "total_memory_bytes s2 = total_memory_bytes s1" "mem_ptr2block s2 = mem_ptr2block s1"
      using MG(9,10) RB(5,6) by simp_all
    ultimately show ?thesis
      using g2 closed merge(1,2) by auto
  qed
  then show "ginv {x} s2"
    and "\<And>y. next (pieces s2 ! x) = Some y \<Longrightarrow> \<not> is_free (pieces s2 ! y)"
    and "prev (pieces s2 ! x) = prev (pieces s1 ! x)"
    and "ptr (pieces s2 ! x) = ptr (pieces s1 ! x)"
    and "size_piece (pieces s2 ! x) = size_piece (pieces s1 ! x) +
          (case next (pieces s1 ! x) of None \<Rightarrow> 0
           | Some n \<Rightarrow> if is_free (pieces s1 ! n) then size_piece (pieces s1 ! n) else 0)"
    and "\<And>y. live s2 y \<longleftrightarrow> live s1 y \<and>
           \<not> (next (pieces s1 ! x) = Some y \<and> is_free (pieces s1 ! y))"
    and "\<And>y. live s2 y \<Longrightarrow> y \<noteq> x \<Longrightarrow>
           ptr (pieces s2 ! y) = ptr (pieces s1 ! y) \<and>
           size_piece (pieces s2 ! y) = size_piece (pieces s1 ! y) \<and>
           is_free (pieces s2 ! y) = is_free (pieces s1 ! y)"
    and "total_memory_bytes s2 = total_memory_bytes s1" and "mem_ptr2block s2 = mem_ptr2block s1"
    by blast+
qed


lemma Deallocate_merge_prev_ginv:
  assumes inv: "ginv {x} s2"
    and closed0: "\<forall>y. next (pieces s2 ! x) = Some y \<longrightarrow> \<not> is_free (pieces s2 ! y)"
    and ab: "Deallocate_merge_prev s2 (prev (pieces s2 ! x)) x = Inr (s3, h)"
  shows "ginv {h} s3"
    and "\<And>y. next (pieces s3 ! h) = Some y \<Longrightarrow> \<not> is_free (pieces s3 ! y)"
    and "\<And>y. prev (pieces s3 ! h) = Some y \<Longrightarrow> \<not> is_free (pieces s3 ! y)"
    and "h = (case prev (pieces s2 ! x) of None \<Rightarrow> x
              | Some q \<Rightarrow> if is_free (pieces s2 ! q) then q else x)"
    and "ptr (pieces s3 ! h) = ptr (pieces s2 ! h)"
    and "size_piece (pieces s3 ! h) = size_piece (pieces s2 ! x) +
          (case prev (pieces s2 ! x) of None \<Rightarrow> 0
           | Some q \<Rightarrow> if is_free (pieces s2 ! q) then size_piece (pieces s2 ! q) else 0)"
    and "\<And>y. live s3 y \<longleftrightarrow> live s2 y \<and> (y = x \<longrightarrow> h = x)"
    and "\<And>y. live s3 y \<Longrightarrow> y \<noteq> h \<Longrightarrow>
           ptr (pieces s3 ! y) = ptr (pieces s2 ! y) \<and>
           size_piece (pieces s3 ! y) = size_piece (pieces s2 ! y) \<and>
           is_free (pieces s3 ! y) = is_free (pieces s2 ! y)"
    and "total_memory_bytes s3 = total_memory_bytes s2" and "mem_ptr2block s3 = mem_ptr2block s2"
proof -
  note closed = closed0 [rule_format]
  have lx: "live s2 x" and fx: "is_free (pieces s2 ! x)" using ginv_hole [OF inv, of x] by auto
  note Lx = link_okD [OF ginv_link [OF inv lx]]
  consider (none) "prev (pieces s2 ! x) = None" "s3 = s2" "h = x"
    | (used) q where "prev (pieces s2 ! x) = Some q" "\<not> is_free (pieces s2 ! q)" "s3 = s2" "h = x"
    | (merge) q sa where "prev (pieces s2 ! x) = Some q" "is_free (pieces s2 ! q)"
        "RemovePieceFromBin s2 q = Inr sa" "MergeNeighbourFreePiece sa q x = Inr s3" "h = q"
    using ab by (auto simp: Deallocate_merge_prev_def bind_e_Inr split: option.splits if_splits)
  then have "ginv {h} s3
    \<and> (\<forall>y. next (pieces s3 ! h) = Some y \<longrightarrow> \<not> is_free (pieces s3 ! y))
    \<and> (\<forall>y. prev (pieces s3 ! h) = Some y \<longrightarrow> \<not> is_free (pieces s3 ! y))
    \<and> h = (case prev (pieces s2 ! x) of None \<Rightarrow> x
              | Some q \<Rightarrow> if is_free (pieces s2 ! q) then q else x)
    \<and> ptr (pieces s3 ! h) = ptr (pieces s2 ! h)
    \<and> size_piece (pieces s3 ! h) = size_piece (pieces s2 ! x) +
          (case prev (pieces s2 ! x) of None \<Rightarrow> 0
           | Some q \<Rightarrow> if is_free (pieces s2 ! q) then size_piece (pieces s2 ! q) else 0)
    \<and> (\<forall>y. live s3 y \<longleftrightarrow> live s2 y \<and> (y = x \<longrightarrow> h = x))
    \<and> (\<forall>y. live s3 y \<longrightarrow> y \<noteq> h \<longrightarrow>
           ptr (pieces s3 ! y) = ptr (pieces s2 ! y) \<and>
           size_piece (pieces s3 ! y) = size_piece (pieces s2 ! y) \<and>
           is_free (pieces s3 ! y) = is_free (pieces s2 ! y))
    \<and> total_memory_bytes s3 = total_memory_bytes s2 \<and> mem_ptr2block s3 = mem_ptr2block s2"
  proof cases
    case none
    then show ?thesis using inv closed by simp
  next
    case (used q)
    then show ?thesis using inv closed by auto
  next
    case (merge q sa)
    have q: "live s2 q" "next (pieces s2 ! q) = Some x" using Lx(2) [OF merge(1)] by auto
    note Lq = link_okD [OF ginv_link [OF inv q(1)]]
    have qx: "q \<noteq> x" using closed [of x] q(2) fx merge(2) closed [of q] by auto
    have qH: "q \<notin> {x}" using qx by simp
    note RB = RemovePieceFromBin_ginv [OF inv q(1) qH merge(3)]
    note Fa = RemovePieceFromBin_fields [OF RB(2)]
    have la: "live sa y = live s2 y" for y
      by (rule live_ptr_cong) (simp_all add: RB(3) Fa)
    have hq: "q \<in> insert q {x}" and hx: "x \<in> insert q {x}" by simp_all
    note MG = Merge_ginv [OF RB(1) hq hx merge(4)]
    have g3: "ginv {q} s3" using MG(1) qx by (simp add: insert_Diff_if)
    have cn: "\<not> is_free (pieces s3 ! y)" if "next (pieces s3 ! q) = Some y" for y
    proof -
      have nxy: "next (pieces s2 ! x) = Some y" using that MG(5) Fa(1) by simp
      from Lx(1) [OF nxy] have "0 < size_piece (pieces s2 ! x)"
        "ptr (pieces s2 ! y) = ptr (pieces s2 ! x) + size_piece (pieces s2 ! x)" by auto
      then have yx: "y \<noteq> x" by auto
      show ?thesis using closed [OF nxy] MG(4) [OF yx] Fa(5) by simp
    qed
    have cp: "\<not> is_free (pieces s3 ! y)" if "prev (pieces s3 ! q) = Some y" for y
    proof -
      have pqy: "prev (pieces s2 ! q) = Some y" using that MG(6) Fa(2) by simp
      from Lq(2) [OF pqy] have y: "live s2 y" "next (pieces s2 ! y) = Some q" by auto
      have yx: "y \<noteq> x" using closed [of q] y(2) merge(2) by auto
      have "\<not> is_free (pieces s2 ! y)"
        using ginv_adj [OF inv y(1) _ y(2) qH] yx merge(2) by auto
      then show ?thesis using MG(4) [OF yx] Fa(5) by simp
    qed
    have "ptr (pieces s3 ! q) = ptr (pieces s2 ! q)" using MG(12) [of q] qx Fa(3) by simp
    moreover have "size_piece (pieces s3 ! q) = size_piece (pieces s2 ! x) + size_piece (pieces s2 ! q)"
      using MG(11) Fa(4) by simp
    moreover have "live s3 y \<longleftrightarrow> live s2 y \<and> y \<noteq> x" for y using MG(2) la by simp
    moreover have "ptr (pieces s3 ! y) = ptr (pieces s2 ! y) \<and>
           size_piece (pieces s3 ! y) = size_piece (pieces s2 ! y) \<and>
           is_free (pieces s3 ! y) = is_free (pieces s2 ! y)" if "y \<noteq> x" "y \<noteq> q" for y
      using MG(4) [OF that(1)] MG(12) [OF that(1)] MG(13) [OF that] Fa by simp
    moreover have "total_memory_bytes s3 = total_memory_bytes s2" "mem_ptr2block s3 = mem_ptr2block s2"
      using MG(9,10) RB(5,6) by simp_all
    ultimately show ?thesis
      using g3 cn cp merge(1,2,5) qx by auto
  qed
  then show "ginv {h} s3"
    and "\<And>y. next (pieces s3 ! h) = Some y \<Longrightarrow> \<not> is_free (pieces s3 ! y)"
    and "\<And>y. prev (pieces s3 ! h) = Some y \<Longrightarrow> \<not> is_free (pieces s3 ! y)"
    and "h = (case prev (pieces s2 ! x) of None \<Rightarrow> x
              | Some q \<Rightarrow> if is_free (pieces s2 ! q) then q else x)"
    and "ptr (pieces s3 ! h) = ptr (pieces s2 ! h)"
    and "size_piece (pieces s3 ! h) = size_piece (pieces s2 ! x) +
          (case prev (pieces s2 ! x) of None \<Rightarrow> 0
           | Some q \<Rightarrow> if is_free (pieces s2 ! q) then size_piece (pieces s2 ! q) else 0)"
    and "\<And>y. live s3 y \<longleftrightarrow> live s2 y \<and> (y = x \<longrightarrow> h = x)"
    and "\<And>y. live s3 y \<Longrightarrow> y \<noteq> h \<Longrightarrow>
           ptr (pieces s3 ! y) = ptr (pieces s2 ! y) \<and>
           size_piece (pieces s3 ! y) = size_piece (pieces s2 ! y) \<and>
           is_free (pieces s3 ! y) = is_free (pieces s2 ! y)"
    and "total_memory_bytes s3 = total_memory_bytes s2" and "mem_ptr2block s3 = mem_ptr2block s2"
    by blast+
qed

lemma Deallocate_unfold:
  "Deallocate s a =
     (if a = 0 then Inr s
      else case map_of (ptr2piece s) a of
        None \<Rightarrow> Inl InvalidDeref
      | Some x \<Rightarrow>
          RV_CHECK (\<not> is_free (pieces s ! x))
            (bind_e (Deallocate_merge_next (upd s x (\<lambda>p. p\<lparr>is_free := True\<rparr>)) x) (\<lambda>s2.
             bind_e (Deallocate_merge_prev s2
                       (prev (pieces (upd s x (\<lambda>p. p\<lparr>is_free := True\<rparr>)) ! x)) x)
               (\<lambda>(s3, h). InsertPiece2Bin s3 h))))"
  by (simp add: Deallocate_def Deallocate_merge_next_def Deallocate_merge_prev_def Let_def
      cong: option.case_cong)

lemma Deallocate_phases:
  assumes "Deallocate s a = Inr s'" "a \<noteq> 0"
  obtains x s2 s3 h where "map_of (ptr2piece s) a = Some x" "\<not> is_free (pieces s ! x)"
    "Deallocate_merge_next (upd s x (\<lambda>p. p\<lparr>is_free := True\<rparr>)) x = Inr s2"
    "Deallocate_merge_prev s2 (prev (pieces (upd s x (\<lambda>p. p\<lparr>is_free := True\<rparr>)) ! x)) x = Inr (s3, h)"
    "InsertPiece2Bin s3 h = Inr s'"
  using assms unfolding Deallocate_unfold
  by (auto simp: bind_e_Inr RV_CHECK_Inr split: option.splits)

lemma Deallocate_effect:
  assumes inv: "ginv {} s" and de: "Deallocate s a = Inr s'" and a0: "a \<noteq> 0"
  shows "\<exists>x. map_of (ptr2piece s) a = Some x \<and> live s x \<and> \<not> is_free (pieces s ! x)
      \<and> ginv {} s'
      \<and> live s' (survivor s x) \<and> is_free (pieces s' ! survivor s x)
      \<and> ptr (pieces s' ! survivor s x) = ptr (pieces s ! survivor s x)
      \<and> size_piece (pieces s' ! survivor s x) = merged_size s x
      \<and> (\<forall>y. live s' y \<longleftrightarrow> live s y \<and> Some y \<noteq> free_next s x \<and> (y = x \<longrightarrow> free_prev s x = None))
      \<and> (\<forall>y. live s' y \<longrightarrow> y \<noteq> survivor s x \<longrightarrow>
            ptr (pieces s' ! y) = ptr (pieces s ! y) \<and>
            size_piece (pieces s' ! y) = size_piece (pieces s ! y) \<and>
            is_free (pieces s' ! y) = is_free (pieces s ! y))
      \<and> total_memory_bytes s' = total_memory_bytes s \<and> mem_ptr2block s' = mem_ptr2block s"
proof -
  from de a0 obtain x s2 s3 h where D: "map_of (ptr2piece s) a = Some x" "\<not> is_free (pieces s ! x)"
    "Deallocate_merge_next (upd s x (\<lambda>p. p\<lparr>is_free := True\<rparr>)) x = Inr s2"
    "Deallocate_merge_prev s2 (prev (pieces (upd s x (\<lambda>p. p\<lparr>is_free := True\<rparr>)) ! x)) x = Inr (s3, h)"
    "InsertPiece2Bin s3 h = Inr s'"
    by (rule Deallocate_phases)
  let ?s1 = "upd s x (\<lambda>p. p\<lparr>is_free := True\<rparr>)"
  have lx: "live s x" using map_ok_live [OF ginv_map_ok [OF inv] D(1)] by simp
  have xl: "x < length (pieces s)" using lx by (rule live_length)
  note Lx = link_okD [OF ginv_link [OF inv lx]]
  have F1: "next (pieces ?s1 ! y) = next (pieces s ! y)"
    "prev (pieces ?s1 ! y) = prev (pieces s ! y)"
    "ptr (pieces ?s1 ! y) = ptr (pieces s ! y)"
    "size_piece (pieces ?s1 ! y) = size_piece (pieces s ! y)"
    "is_free (pieces ?s1 ! y) = (y = x \<or> is_free (pieces s ! y))" for y
    using xl by (simp_all add: nth_pieces_upd)
  have l1: "live ?s1 y = live s y" for y by (simp add: live_def F1)
  have g1: "ginv {x} ?s1" using mark_free_ginv [OF inv lx D(2)] by simp
  note N = Deallocate_merge_next_ginv [OF g1 D(3)]
  have pv: "prev (pieces ?s1 ! x) = prev (pieces s2 ! x)" using N(3) by simp
  have cl2: "\<forall>y. next (pieces s2 ! x) = Some y \<longrightarrow> \<not> is_free (pieces s2 ! y)"
    using N(2) by blast
  note Pv = Deallocate_merge_prev_ginv [OF N(1) cl2 D(4) [unfolded pv]]
  have cl3: "\<forall>y. next (pieces s3 ! h) = Some y \<longrightarrow> \<not> is_free (pieces s3 ! y)"
    "\<forall>y. prev (pieces s3 ! h) = Some y \<longrightarrow> \<not> is_free (pieces s3 ! y)"
    using Pv(2,3) by blast+
  have hh: "h \<in> {h}" by simp
  note I = InsertPiece2Bin_ginv [OF Pv(1) hh D(5) cl3]
  have g': "ginv {} s'" using I(1) by simp
  note FI = RemovePieceFromBin_fields [OF I(2)]
  have l': "live s' y = live s3 y" for y
    by (rule live_ptr_cong) (simp_all add: I(3) FI)
  \<comment> \<open>the free neighbours, read in the first state\<close>
  have nx_ne: "n \<noteq> x" if "next (pieces s ! x) = Some n" for n
    using Lx(1) [OF that] by auto
  have fn: "free_next s x = (case next (pieces ?s1 ! x) of None \<Rightarrow> None
      | Some n \<Rightarrow> if is_free (pieces ?s1 ! n) then Some n else None)"
    using nx_ne by (auto simp: free_next_def F1 split: option.splits)
  have q2: "live s2 q \<and> q \<noteq> x \<and> is_free (pieces s2 ! q) = is_free (pieces s ! q)
      \<and> size_piece (pieces s2 ! q) = size_piece (pieces s ! q)
      \<and> ptr (pieces s2 ! q) = ptr (pieces s ! q)"
    if "prev (pieces s ! x) = Some q" for q
  proof -
    have p2: "prev (pieces s2 ! x) = Some q" using that N(3) F1 by simp
    have lq: "live s2 q" "next (pieces s2 ! q) = Some x"
      using link_ok_prev [OF ginv_link [OF N(1)] p2] ginv_hole [OF N(1), of x] by auto
    have qx: "q \<noteq> x" using Lx(2) [OF that] Lx(1) [of x] by auto
    show ?thesis using N(7) [OF lq(1) qx] lq(1) qx F1 by simp
  qed
  have fp: "free_prev s x = (case prev (pieces s2 ! x) of None \<Rightarrow> None
      | Some q \<Rightarrow> if is_free (pieces s2 ! q) then Some q else None)"
    using q2 N(3) by (auto simp: free_prev_def F1 split: option.splits)
  have h: "h = survivor s x"
    using Pv(4) fp by (auto simp: survivor_def split: option.splits if_splits)
  have sz: "size_piece (pieces s3 ! h) = merged_size s x"
    using Pv(6) N(5) q2 N(3) nx_ne
    by (auto simp: merged_size_def free_next_def free_prev_def F1 split: option.splits)
  have ptrh: "ptr (pieces s3 ! h) = ptr (pieces s ! h)"
  proof (cases "h = x")
    case True
    then show ?thesis using Pv(5) N(4) F1 by simp
  next
    case False
    then obtain q where "prev (pieces s2 ! x) = Some q" "h = q"
      using Pv(4) by (auto split: option.splits if_splits)
    then show ?thesis using Pv(5) q2 [of q] N(3) F1 by simp
  qed
  have lh: "live s3 h \<and> is_free (pieces s3 ! h)" using ginv_hole [OF Pv(1), of h] by simp
  have c1: "(Some y \<noteq> free_next s x) \<longleftrightarrow> \<not> (next (pieces ?s1 ! x) = Some y \<and> is_free (pieces ?s1 ! y))" for y
    using nx_ne [of y] by (auto simp: free_next_def F1 split: option.splits)
  have c2: "h = x \<longleftrightarrow> free_prev s x = None"
    using h q2 by (auto simp: survivor_def free_prev_def split: option.splits if_splits)
  have lv: "live s' y \<longleftrightarrow> live s y \<and> Some y \<noteq> free_next s x \<and> (y = x \<longrightarrow> free_prev s x = None)" for y
  proof -
    have "live s' y \<longleftrightarrow> live s2 y \<and> (y = x \<longrightarrow> h = x)"
      using Pv(7) [of y] by (simp add: l')
    also have "\<dots> \<longleftrightarrow> (live s y \<and> Some y \<noteq> free_next s x) \<and> (y = x \<longrightarrow> h = x)"
      using N(6) [of y] c1 [of y] by (simp only: l1)
    finally show ?thesis using c2 by blast
  qed
  have rest: "ptr (pieces s' ! y) = ptr (pieces s ! y) \<and>
            size_piece (pieces s' ! y) = size_piece (pieces s ! y) \<and>
            is_free (pieces s' ! y) = is_free (pieces s ! y)"
    if "live s' y" "y \<noteq> survivor s x" for y
  proof -
    have l3: "live s3 y" using that(1) by (simp add: l')
    have yh: "y \<noteq> h" using that(2) h by simp
    have l2: "live s2 y" using Pv(7) [of y] l3 by simp
    have yx: "y \<noteq> x" using Pv(7) [of y] l3 yh by auto
    show ?thesis using Pv(8) [OF l3 yh] N(7) [OF l2 yx] yx by (simp add: FI F1)
  qed
  show ?thesis
    using D(1,2) lx g' lh h sz ptrh lv rest I(5,6) Pv(9,10) N(8,9)
    by (auto simp: l' FI)
qed

lemma sorted_wrt_remove1: "sorted_wrt P xs \<Longrightarrow> sorted_wrt P (remove1 x xs)"
  by (induction xs) (auto dest: notin_set_remove1)

lemma sorted_PieceCmp_distinct: "sorted_wrt (PieceCmp ps) xs \<Longrightarrow> distinct xs"
  by (induction xs) (auto simp: PieceCmp_irrefl)

text \<open>Taking a filed free Piece out of its bin and marking it in use keeps the invariant.\<close>

lemma take_ginv:
  assumes inv: "ginv H s" and bn: "bn < 20" and xin: "x \<in> set (pieces_bin (bins s ! bn))"
    and s3: "s3 = upd (upd (s\<lparr>bins := (bins s)[bn := (bins s ! bn)\<lparr>pieces_bin :=
                 remove1 x (pieces_bin (bins s ! bn))\<rparr>]\<rparr>)
               x (\<lambda>p. p\<lparr>bin_num := kInvalidBinNum\<rparr>)) x (\<lambda>p. p\<lparr>is_free := False\<rparr>)"
  shows "ginv H s3"
    and "pieces s3 = (pieces s)[x := (pieces s ! x)\<lparr>bin_num := kInvalidBinNum, is_free := False\<rparr>]"
    and "ptr2piece s3 = ptr2piece s" and "recycle_piece_list s3 = recycle_piece_list s"
    and "total_memory_bytes s3 = total_memory_bytes s" and "mem_ptr2block s3 = mem_ptr2block s"
    and "alignment s3 = alignment s"
    and "live s x" and "is_free (pieces s ! x)" and "x \<notin> H"
    and "\<forall>y. next (pieces s ! x) = Some y \<longrightarrow> y \<notin> H \<longrightarrow> \<not> is_free (pieces s ! y)"
    and "\<forall>y. prev (pieces s ! x) = Some y \<longrightarrow> y \<notin> H \<longrightarrow> \<not> is_free (pieces s ! y)"
proof -
  have bok: "bins_ok s" using inv by (rule ginv_bins_ok)
  note X = bins_okD [OF bok bn xin]
  show lx: "live s x" and fx: "is_free (pieces s ! x)" using X by auto
  show xH: "x \<notin> H" using ginv_hole_bin [OF inv _ bn, of x] xin by auto
  have xl: "x < length (pieces s)" using lx by (rule live_length)
  have blen: "length (bins s) = 20" using bok by (simp add: bins_ok_def)
  note Lx = link_okD [OF ginv_link [OF inv lx]]
  show nxf: "\<forall>y. next (pieces s ! x) = Some y \<longrightarrow> y \<notin> H \<longrightarrow> \<not> is_free (pieces s ! y)"
    using ginv_adj [OF inv lx xH _ _ fx] by blast
  show pvf: "\<forall>y. prev (pieces s ! x) = Some y \<longrightarrow> y \<notin> H \<longrightarrow> \<not> is_free (pieces s ! y)"
  proof (intro allI impI)
    fix y assume y: "prev (pieces s ! x) = Some y" "y \<notin> H"
    from Lx(2) [OF y(1)] have "live s y" "next (pieces s ! y) = Some x" by auto
    from ginv_adj [OF inv this(1) y(2) this(2) xH] fx show "\<not> is_free (pieces s ! y)" by blast
  qed
  show P: "pieces s3 = (pieces s)[x := (pieces s ! x)\<lparr>bin_num := kInvalidBinNum, is_free := False\<rparr>]"
    and M: "ptr2piece s3 = ptr2piece s" and Rl: "recycle_piece_list s3 = recycle_piece_list s"
    and "total_memory_bytes s3 = total_memory_bytes s" and "mem_ptr2block s3 = mem_ptr2block s"
    and A: "alignment s3 = alignment s"
    using xl by (simp_all add: s3 upd_def)
  have Bn: "bins s3 = (bins s)[bn := (bins s ! bn)\<lparr>pieces_bin := remove1 x (pieces_bin (bins s ! bn))\<rparr>]"
    by (simp add: s3)
  have F [simp]: "next (pieces s3 ! y) = next (pieces s ! y)"
    "prev (pieces s3 ! y) = prev (pieces s ! y)"
    "ptr (pieces s3 ! y) = ptr (pieces s ! y)"
    "size_piece (pieces s3 ! y) = size_piece (pieces s ! y)"
    "is_free (pieces s3 ! y) = (y \<noteq> x \<and> is_free (pieces s ! y))"
    "y \<noteq> x \<Longrightarrow> bin_num (pieces s3 ! y) = bin_num (pieces s ! y)" for y
    using xl by (auto simp: P nth_list_update)
  have len [simp]: "length (pieces s3) = length (pieces s)" by (simp add: P)
  have dist: "distinct (pieces_bin (bins s ! i))" if "i < 20" for i
    using bok that sorted_PieceCmp_distinct by (auto simp: bins_ok_def)
  have B: "set (pieces_bin (bins s3 ! i)) = set (pieces_bin (bins s ! i)) - {x}" if "i < 20" for i
  proof (cases "i = bn")
    case True
    then show ?thesis using blen bn dist [OF bn] by (simp add: Bn)
  next
    case False
    have "x \<notin> set (pieces_bin (bins s ! i))"
      using bins_okD(3) [OF bok that, of x] X(3) False by auto
    then show ?thesis using False by (simp add: Bn)
  qed
  have srt: "sorted_wrt (PieceCmp (pieces s3)) xs = sorted_wrt (PieceCmp (pieces s)) xs" for xs
    by (rule sorted_PieceCmp_cong) simp
  have chn: "chain (pieces s3) p rs = chain (pieces s) p rs" for p rs
    by (rule chain_cong) simp
  have live [simp]: "live s3 y = live s y" for y
    by (simp add: live_def M)
  show "ginv H s3"
  proof (rule ginvI)
    show "alignment s3 = 512" using ginv_alignment [OF inv] by (simp add: A)
    show "map_ok s3" using ginv_map_ok [OF inv] by (simp add: map_ok_alt M)
    show "bins_ok s3"
    proof (rule bins_okI)
      show "length (bins s3) = 20" using blen by (simp add: Bn)
    next
      fix i :: nat assume i: "i < 20"
      have so: "sorted_wrt (PieceCmp (pieces s)) (pieces_bin (bins s ! i))"
        using bok i by (simp add: bins_ok_def)
      show "sorted_wrt (PieceCmp (pieces s3)) (pieces_bin (bins s3 ! i))"
        using so blen bn by (cases "i = bn") (simp_all add: srt Bn sorted_wrt_remove1)
    next
      fix i y assume i: "i < (20::nat)" and y: "y \<in> set (pieces_bin (bins s3 ! i))"
      then have "y \<in> set (pieces_bin (bins s ! i))" "y \<noteq> x" by (simp_all add: B)
      then show "live s3 y \<and> is_free (pieces s3 ! y) \<and> bin_num (pieces s3 ! y) = int i"
        using bins_okD [OF bok i] by simp
    qed
    show "recycle_ok s3"
      using ginv_recycle_ok [OF inv] by (simp add: recycle_ok_def chn M Rl)
    show "link_ok s3 y" if "live s3 y" for y
    proof -
      have "link_ok s3 y = link_ok s y" by (simp add: link_ok_def)
      then show ?thesis using ginv_link [OF inv, of y] that by simp
    qed
    show "filed s3 y" if "live s3 y" "y \<notin> H" for y
    proof (cases "y = x")
      case True
      then show ?thesis by (simp add: filed_def)
    next
      case False
      have f: "filed s y" using ginv_filed [OF inv _ that(2)] that(1) by simp
      show ?thesis
        unfolding filed_def
      proof (intro impI conjI)
        assume "is_free (pieces s3 ! y)"
        then have fr: "is_free (pieces s ! y)" by simp
        show "bin_num (pieces s3 ! y) = BinNum4BinSize (size_piece (pieces s3 ! y))"
          using filedD(1) [OF f fr] False by simp
        have "nat (bin_num (pieces s ! y)) < 20"
          using filedD(1) [OF f fr] BinNum4BinSize_nat_lt [of "size_piece (pieces s ! y)"] by simp
        then show "y \<in> set (pieces_bin (bins s3 ! nat (bin_num (pieces s3 ! y))))"
          using filedD(2) [OF f fr] False by (simp add: B)
      qed
    qed
    show False if a: "live s3 y" "y \<notin> H" "next (pieces s3 ! y) = Some z" "z \<notin> H"
      "is_free (pieces s3 ! y)" "is_free (pieces s3 ! z)" for y z
      using ginv_adj [OF inv, of y z] a by simp
    show "live s3 y \<and> is_free (pieces s3 ! y)" if "y \<in> H" for y
      using ginv_hole [OF inv, of y] that xH by auto
    show False if "y \<in> H" "i < 20" "y \<in> set (pieces_bin (bins s3 ! i))" for y i
      using ginv_hole_bin [OF inv, of y i] that by (simp add: B)
  qed
qed

lemma chain_unique: "chain ps q xs \<Longrightarrow> chain ps q ys \<Longrightarrow> xs = ys"
proof (induction xs arbitrary: q ys)
  case Nil
  then show ?case by (cases ys) auto
next
  case (Cons a xs)
  then show ?case by (cases ys) auto
qed

lemma chain_suffix: "chain ps q (us @ a # vs) \<Longrightarrow> chain ps (next (ps ! a)) vs"
  by (induction us arbitrary: q) auto

lemma chain_distinct: "chain ps p rs \<Longrightarrow> distinct rs"
proof (induction rs arbitrary: p)
  case Nil
  then show ?case by simp
next
  case (Cons a rs)
  have tl: "chain ps (next (ps ! a)) rs" using Cons.prems by simp
  have "a \<notin> set rs"
  proof
    assume "a \<in> set rs"
    then obtain us vs where dec: "rs = us @ a # vs" by (auto simp: in_set_conv_decomp)
    then have "chain ps (next (ps ! a)) vs" using tl chain_suffix by blast
    then have "rs = vs" using tl chain_unique by blast
    with dec show False by simp
  qed
  with Cons.IH [OF tl] show ?case by simp
qed

lemma ginv_cong:
  assumes inv: "ginv H s" and P: "pieces s' = pieces s" and B: "bins s' = bins s"
    and M: "ptr2piece s' = ptr2piece s" and A: "alignment s' = alignment s"
    and R: "recycle_ok s'"
  shows "ginv H s'"
proof -
  have live: "live s' y = live s y" for y by (simp add: live_def P M)
  have lk: "link_ok s' y = link_ok s y" for y by (simp add: link_ok_def live P)
  have fl: "filed s' y = filed s y" for y by (simp add: filed_def P B)
  have mo: "map_ok s' = map_ok s" by (simp add: map_ok_def P M)
  have bo: "bins_ok s' = bins_ok s" by (simp add: bins_ok_def P B live)
  show ?thesis
    using inv R unfolding ginv_def live lk fl mo bo A P B by blast
qed

lemma AllocatePiece_ginv:
  assumes inv: "ginv H s" and ap: "AllocatePiece s = (s', z)"
  shows "ginv H s'" and "detached s' z" and "\<not> live s' z"
    and "length (pieces s) \<le> length (pieces s')"
    and "\<And>y. y < length (pieces s) \<Longrightarrow> pieces s' ! y = pieces s ! y"
    and "\<And>y. live s' y = live s y"
    and "bins s' = bins s" and "ptr2piece s' = ptr2piece s"
    and "total_memory_bytes s' = total_memory_bytes s" and "mem_ptr2block s' = mem_ptr2block s"
    and "alignment s' = alignment s"
proof -
  from ginv_recycle_ok [OF inv] obtain rs where
    rs: "chain (pieces s) (recycle_piece_list s) rs"
      "\<And>x. x \<in> set rs \<Longrightarrow> x < length (pieces s) \<and> x \<notin> snd ` set (ptr2piece s)"
    unfolding recycle_ok_def by blast
  have mok: "map_ok s" using inv by (rule ginv_map_ok)
  have main: "ginv H s' \<and> detached s' z \<and> \<not> live s' z \<and> length (pieces s) \<le> length (pieces s') \<and>
      (\<forall>y. y < length (pieces s) \<longrightarrow> pieces s' ! y = pieces s ! y) \<and> (\<forall>y. live s' y = live s y) \<and>
      bins s' = bins s \<and> ptr2piece s' = ptr2piece s \<and> total_memory_bytes s' = total_memory_bytes s \<and>
      mem_ptr2block s' = mem_ptr2block s \<and> alignment s' = alignment s"
  proof (cases "recycle_piece_list s")
    case None
    then have E: "s' = s\<lparr>pieces := pieces s @ [new_Piece]\<rparr>" "z = length (pieces s)"
      using ap by (simp_all add: AllocatePiece_def)
    have rs0: "rs = []" using rs(1) None by (cases rs) auto
    have P: "pieces s' ! y = pieces s ! y" if "y < length (pieces s)" for y
      using that by (simp add: E nth_append)
    have unm: "y \<in> snd ` set (ptr2piece s) \<Longrightarrow> y < length (pieces s)" for y
      using mok by (auto simp: map_ok_alt)
    have live: "live s' y = live s y" for y
    proof (cases "y < length (pieces s)")
      case True
      then show ?thesis by (simp add: live_def P) (simp add: E)
    next
      case False
      then have "\<not> live s y" by (simp add: live_def)
      moreover have "\<not> live s' y" using live_mapped [of s' y] unm [of y] False by (auto simp: E)
      ultimately show ?thesis by simp
    qed
    have g: "ginv H s'"
    proof (rule ginvI)
      show "alignment s' = 512" using ginv_alignment [OF inv] by (simp add: E)
      show "map_ok s'" using mok by (fastforce simp: map_ok_alt E nth_append)
      show "bins_ok s'"
      proof (rule bins_okI)
        show "length (bins s') = 20" using ginv_bins_ok [OF inv] by (simp add: bins_ok_def E)
      next
        fix i :: nat assume i: "i < 20"
        have "pieces s' ! x = pieces s ! x" if "x \<in> set (pieces_bin (bins s ! i))" for x
          using live_length [OF bins_okD(1) [OF ginv_bins_ok [OF inv] i that]] by (rule P)
        then have "sorted_wrt (PieceCmp (pieces s')) (pieces_bin (bins s ! i))
            = sorted_wrt (PieceCmp (pieces s)) (pieces_bin (bins s ! i))"
          by (intro sorted_PieceCmp_cong) simp
        then show "sorted_wrt (PieceCmp (pieces s')) (pieces_bin (bins s' ! i))"
          using ginv_bins_ok [OF inv] i by (simp add: bins_ok_def E)
      next
        fix i x assume i: "i < (20::nat)" and x: "x \<in> set (pieces_bin (bins s' ! i))"
        then have xin: "x \<in> set (pieces_bin (bins s ! i))" by (simp add: E)
        from bins_okD [OF ginv_bins_ok [OF inv] i xin]
        show "live s' x \<and> is_free (pieces s' ! x) \<and> bin_num (pieces s' ! x) = int i"
          by (simp add: live P live_length)
      qed
      show "recycle_ok s'" using None by (auto simp: recycle_ok_def E intro: exI [of _ "[]"])
      show "link_ok s' y" if "live s' y" for y
      proof -
        have ly: "live s y" using that by (simp add: live)
        note L = link_okD [OF ginv_link [OF inv ly]]
        have yl: "y < length (pieces s)" using ly by (rule live_length)
        show ?thesis
        proof (rule link_okI)
          fix w assume "next (pieces s' ! y) = Some w"
          then have "next (pieces s ! y) = Some w" using yl by (simp add: P)
          from L(1) [OF this] show "live s' w \<and> prev (pieces s' ! w) = Some y \<and>
              ptr (pieces s' ! w) = ptr (pieces s' ! y) + size_piece (pieces s' ! y) \<and>
              0 < size_piece (pieces s' ! y)"
            using yl by (simp add: live P live_length)
        next
          fix w assume "prev (pieces s' ! y) = Some w"
          then have "prev (pieces s ! y) = Some w" using yl by (simp add: P)
          from L(2) [OF this] show "live s' w \<and> next (pieces s' ! w) = Some y"
            by (simp add: live P live_length)
        qed (use L(3,4) yl in \<open>simp_all add: P\<close>)
      qed
      show "filed s' y" if "live s' y" "y \<notin> H" for y
      proof -
        have ly: "live s y" using that by (simp add: live)
        have "bins s' = bins s" by (simp add: E)
        then have "filed s' y = filed s y" using live_length [OF ly] by (simp add: filed_def P)
        then show ?thesis using ginv_filed [OF inv ly that(2)] by simp
      qed
      show False if a: "live s' y" "y \<notin> H" "next (pieces s' ! y) = Some w" "w \<notin> H"
        "is_free (pieces s' ! y)" "is_free (pieces s' ! w)" for y w
      proof -
        have ly: "live s y" using a(1) by (simp add: live)
        have yl: "y < length (pieces s)" using ly by (rule live_length)
        have nw: "next (pieces s ! y) = Some w" using a(3) yl by (simp add: P)
        have "live s w" using link_ok_next [OF ginv_link [OF inv ly] nw] by simp
        then have wl: "w < length (pieces s)" by (rule live_length)
        show False using ginv_adj [OF inv ly a(2) nw a(4)] a(5,6) yl wl by (simp add: P)
      qed
      show "live s' y \<and> is_free (pieces s' ! y)" if "y \<in> H" for y
        using ginv_hole [OF inv that] by (simp add: live P live_length)
      show False if "y \<in> H" "i < 20" "y \<in> set (pieces_bin (bins s' ! i))" for y i
        using ginv_hole_bin [OF inv, of y i] that by (simp add: E)
    qed
    have d: "detached s' z"
      unfolding detached_def using None unm [of z]
      by (auto simp: E intro!: exI [of _ "[]"])
    have nl: "\<not> live s' z" using live [of z] by (simp add: E live_def)
    show ?thesis
      using g d nl P live by (simp add: E)
  next
    case (Some r)
    then have E: "s' = s\<lparr>recycle_piece_list := next (pieces s ! r)\<rparr>" "z = r"
      using ap by (auto simp: AllocatePiece_def)
    obtain rs' where rs': "rs = r # rs'" "chain (pieces s) (next (pieces s ! r)) rs'"
      using rs(1) Some by (cases rs) auto
    have rn: "r \<notin> set rs'" using chain_distinct [OF rs(1)] rs'(1) by simp
    have live: "live s' y = live s y" for y by (simp add: live_def E)
    have "recycle_ok s'"
      unfolding recycle_ok_def using rs'(2) rs(2) rs'(1)
      by (auto simp: E intro!: exI [of _ rs'])
    then have g: "ginv H s'"
      by (intro ginv_cong [OF inv]) (simp_all add: E)
    have d: "detached s' z"
      unfolding detached_def using rs(2) [of r] rs'(1) rs(2) rn rs'(2)
      by (auto simp: E intro!: exI [of _ rs'])
    have nl: "\<not> live s' z" using d live_mapped [of s' z] by (auto simp: detached_def)
    show ?thesis
      using g d nl live by (simp add: E)
  qed
then show "ginv H s'" and "detached s' z" and "\<not> live s' z"
    and "length (pieces s) \<le> length (pieces s')"
    and "\<And>y. y < length (pieces s) \<Longrightarrow> pieces s' ! y = pieces s ! y"
    and "\<And>y. live s' y = live s y"
    and "bins s' = bins s" and "ptr2piece s' = ptr2piece s"
    and "total_memory_bytes s' = total_memory_bytes s" and "mem_ptr2block s' = mem_ptr2block s"
    and "alignment s' = alignment s"
    by blast+
qed

lemma PieceCmp_list_update:
  assumes "size_piece p = size_piece (ps ! h)" "ptr p = ptr (ps ! h)"
  shows "PieceCmp (ps[h := p]) = PieceCmp ps"
proof (cases "h < length ps")
  case True
  show ?thesis using assms by (intro ext) (simp add: PieceCmp_def nth_list_update True)
next
  case False
  then show ?thesis by (simp add: list_update_beyond)
qed

lemma MarkPiece_Inr:
  "MarkPiece s z = Inr sm \<longleftrightarrow>
     map_of (ptr2piece s) (ptr (pieces s ! z)) = None \<and>
     sm = s\<lparr>ptr2piece := (ptr (pieces s ! z), z) # ptr2piece s\<rparr>"
  by (auto simp: MarkPiece_def split: option.splits)

text \<open>\<^verbatim>\<open>InsertPiece2Bin\<close> and \<^verbatim>\<open>MarkPiece\<close> touch different parts of the state: the
  source files the new Piece first and registers its address second, the proofs look at
  the registered Piece first.\<close>

lemma Insert_Mark_commute:
  assumes "bind_e (InsertPiece2Bin s z) (\<lambda>s1. MarkPiece s1 z) = Inr s'"
  shows "\<exists>sm. MarkPiece s z = Inr sm \<and> InsertPiece2Bin sm z = Inr s'"
proof -
  from assms obtain s1 where s1: "InsertPiece2Bin s z = Inr s1" "MarkPiece s1 z = Inr s'"
    by (auto simp: bind_e_Inr)
  from s1(1) obtain ps where I: "is_free (pieces s ! z)" "bin_num (pieces s ! z) = kInvalidBinNum"
    "nat (BinNum4BinSize (size_piece (pieces s ! z))) < length (bins s)"
    "set_insert (PieceCmp (pieces s)) z
       (pieces_bin (bins s ! nat (BinNum4BinSize (size_piece (pieces s ! z))))) = Some ps"
    "s1 = (upd s z (\<lambda>p. p\<lparr>bin_num := BinNum4BinSize (size_piece (pieces s ! z))\<rparr>))
            \<lparr>bins := (bins s)[nat (BinNum4BinSize (size_piece (pieces s ! z))) :=
               (bins s ! nat (BinNum4BinSize (size_piece (pieces s ! z))))\<lparr>pieces_bin := ps\<rparr>]\<rparr>"
    by (rule InsertPiece2Bin_Inr)
  have pz: "ptr (pieces s1 ! z) = ptr (pieces s ! z)"
    by (cases "z < length (pieces s)") (simp_all add: I(5) upd_def list_update_beyond)
  have M1: "ptr2piece s1 = ptr2piece s" by (simp add: I(5))
  let ?sm = "s\<lparr>ptr2piece := (ptr (pieces s ! z), z) # ptr2piece s\<rparr>"
  have m: "map_of (ptr2piece s) (ptr (pieces s ! z)) = None"
    and s': "s' = s1\<lparr>ptr2piece := (ptr (pieces s ! z), z) # ptr2piece s\<rparr>"
    using s1(2) by (simp_all add: MarkPiece_Inr pz M1)
  have "MarkPiece s z = Inr ?sm" using m by (simp add: MarkPiece_Inr)
  moreover have "InsertPiece2Bin ?sm z = Inr s'"
    using I(1-4)
    by (simp add: InsertPiece2Bin_def RV_CHECK_def bind_e_def bins_at_def Let_def
        BinNum4BinSize_nonneg PieceCmp_list_update s' I(5) upd_def)
  ultimately show ?thesis by blast
qed

text \<open>A detached descriptor set up as the single free Piece of a new Block, and registered.\<close>

lemma plant_ginv:
  assumes inv: "ginv H s" and dz: "detached s z"
    and s3: "s3 = upd s z (\<lambda>p. p\<lparr>size_piece := final, ptr := mem_ptr, prev := None,
                 next := None, is_free := True, bin_num := kInvalidBinNum\<rparr>)"
    and al: "final mod 512 = 0" and en: "mem_ptr + final < 2 ^ 64"
    and mk: "MarkPiece s3 z = Inr sm"
  shows "ginv (insert z H) sm"
    and "\<And>y. live sm y \<longleftrightarrow> y = z \<or> live s y"
    and "\<And>y. y \<noteq> z \<Longrightarrow> pieces sm ! y = pieces s ! y"
    and "pieces sm ! z = (pieces s ! z)\<lparr>size_piece := final, ptr := mem_ptr, prev := None,
                 next := None, is_free := True, bin_num := kInvalidBinNum\<rparr>"
    and "length (pieces sm) = length (pieces s)"
    and "bins sm = bins s" and "ptr2piece sm = (mem_ptr, z) # ptr2piece s"
    and "map_of (ptr2piece s) mem_ptr = None"
    and "total_memory_bytes sm = total_memory_bytes s" and "mem_ptr2block sm = mem_ptr2block s"
proof -
  have zl: "z < length (pieces s)" and zu: "z \<notin> snd ` set (ptr2piece s)"
    using dz by (auto simp: detached_def)
  from dz obtain rs where rs: "chain (pieces s) (recycle_piece_list s) rs" "z \<notin> set rs"
    "\<And>x. x \<in> set rs \<Longrightarrow> x < length (pieces s) \<and> x \<notin> snd ` set (ptr2piece s)"
    unfolding detached_def by blast
  have nlz: "\<not> live s z" using zu live_mapped by blast
  have P3: "pieces s3 ! y = (if y = z then (pieces s ! z)\<lparr>size_piece := final, ptr := mem_ptr,
        prev := None, next := None, is_free := True, bin_num := kInvalidBinNum\<rparr> else pieces s ! y)" for y
    using zl by (simp add: s3 nth_pieces_upd)
  have none: "map_of (ptr2piece s) mem_ptr = None"
    and sm: "sm = s3\<lparr>ptr2piece := (mem_ptr, z) # ptr2piece s\<rparr>"
    using mk by (simp_all add: MarkPiece_Inr P3) (simp_all add: s3)
  show "map_of (ptr2piece s) mem_ptr = None" by (rule none)
  have Pm: "pieces sm = pieces s3" by (simp add: sm)
  show Pz: "pieces sm ! z = (pieces s ! z)\<lparr>size_piece := final, ptr := mem_ptr, prev := None,
                 next := None, is_free := True, bin_num := kInvalidBinNum\<rparr>"
    by (simp add: Pm P3)
  show Py: "pieces sm ! y = pieces s ! y" if "y \<noteq> z" for y using that by (simp add: Pm P3)
  show len: "length (pieces sm) = length (pieces s)" by (simp add: Pm s3)
  show B: "bins sm = bins s" and M: "ptr2piece sm = (mem_ptr, z) # ptr2piece s"
    and "total_memory_bytes sm = total_memory_bytes s" and "mem_ptr2block sm = mem_ptr2block s"
    by (simp_all add: sm s3)
  have A: "alignment sm = alignment s" and Rl: "recycle_piece_list sm = recycle_piece_list s"
    by (simp_all add: sm s3)
  have mok: "map_ok s" using inv by (rule ginv_map_ok)
  have bok: "bins_ok s" using inv by (rule ginv_bins_ok)
  show live: "live sm y \<longleftrightarrow> y = z \<or> live s y" for y
  proof (cases "y = z")
    case True
    then show ?thesis using zl by (simp add: live_def M Pz len)
  next
    case False
    have "ptr (pieces s ! y) \<noteq> mem_ptr" if "live s y"
      using that none by (auto simp: live_def)
    then show ?thesis using False by (auto simp: live_def M Py len)
  qed
  have lz: "y \<noteq> z" if "live s y" for y using that nlz by auto
  show "ginv (insert z H) sm"
  proof (rule ginvI)
    show "alignment sm = 512" using ginv_alignment [OF inv] by (simp add: A)
    show "map_ok sm"
      unfolding map_ok_alt
    proof (intro allI impI)
      fix a x assume "(a, x) \<in> set (ptr2piece sm)"
      then consider "a = mem_ptr" "x = z" | "(a, x) \<in> set (ptr2piece s)" by (auto simp: M)
      then show "x < length (pieces sm) \<and> ptr (pieces sm ! x) = a"
      proof cases
        case 1
        then show ?thesis using zl by (simp add: len Pz)
      next
        case 2
        then have "x \<noteq> z" using zu by force
        then show ?thesis using 2 mok by (auto simp: map_ok_alt len Py)
      qed
    qed
    show "bins_ok sm"
    proof (rule bins_okI)
      show "length (bins sm) = 20" using bok by (simp add: bins_ok_def B)
    next
      fix i :: nat assume i: "i < 20"
      have "pieces sm ! x = pieces s ! x" if "x \<in> set (pieces_bin (bins s ! i))" for x
        using lz [OF bins_okD(1) [OF bok i that]] by (rule Py)
      then have "sorted_wrt (PieceCmp (pieces sm)) (pieces_bin (bins s ! i))
          = sorted_wrt (PieceCmp (pieces s)) (pieces_bin (bins s ! i))"
        by (intro sorted_PieceCmp_cong) simp
      then show "sorted_wrt (PieceCmp (pieces sm)) (pieces_bin (bins sm ! i))"
        using bok i by (simp add: bins_ok_def B)
    next
      fix i x assume i: "i < (20::nat)" and x: "x \<in> set (pieces_bin (bins sm ! i))"
      then have xin: "x \<in> set (pieces_bin (bins s ! i))" by (simp add: B)
      from bins_okD [OF bok i xin] lz [of x]
      show "live sm x \<and> is_free (pieces sm ! x) \<and> bin_num (pieces sm ! x) = int i"
        by (simp add: live Py)
    qed
    show "recycle_ok sm"
    proof -
      have "pieces sm ! x = pieces s ! x" if "x \<in> set rs" for x
        using that rs(2) by (intro Py) auto
      then have "chain (pieces sm) (recycle_piece_list s) rs = chain (pieces s) (recycle_piece_list s) rs"
        by (intro chain_cong) simp
      moreover have "x < length (pieces sm) \<and> x \<notin> snd ` set (ptr2piece sm)" if "x \<in> set rs" for x
        using rs(3) [OF that] rs(2) that by (auto simp: len M)
      ultimately show ?thesis unfolding recycle_ok_def using rs(1) by (auto simp: Rl)
    qed
    show "link_ok sm y" if "live sm y" for y
    proof (cases "y = z")
      case True
      then show ?thesis using al en by (simp add: link_ok_def Pz)
    next
      case False
      then have ly: "live s y" using that by (simp add: live)
      note L = link_okD [OF ginv_link [OF inv ly]]
      show ?thesis
      proof (rule link_okI)
        fix w assume "next (pieces sm ! y) = Some w"
        then have nw: "next (pieces s ! y) = Some w" using False by (simp add: Py)
        from L(1) [OF nw] lz [of w] show "live sm w \<and> prev (pieces sm ! w) = Some y \<and>
            ptr (pieces sm ! w) = ptr (pieces sm ! y) + size_piece (pieces sm ! y) \<and>
            0 < size_piece (pieces sm ! y)"
          using False by (simp add: live Py)
      next
        fix w assume "prev (pieces sm ! y) = Some w"
        then have pw: "prev (pieces s ! y) = Some w" using False by (simp add: Py)
        from L(2) [OF pw] lz [of w] show "live sm w \<and> next (pieces sm ! w) = Some y"
          by (simp add: live Py)
      qed (use L(3,4) False in \<open>simp_all add: Py\<close>)
    qed
    show "filed sm y" if "live sm y" "y \<notin> insert z H" for y
    proof -
      have yz: "y \<noteq> z" and ly: "live s y" using that by (auto simp: live)
      have "filed sm y = filed s y" using yz by (simp add: filed_def Py B)
      then show ?thesis using ginv_filed [OF inv ly] that(2) by simp
    qed
    show False if a: "live sm y" "y \<notin> insert z H" "next (pieces sm ! y) = Some w" "w \<notin> insert z H"
      "is_free (pieces sm ! y)" "is_free (pieces sm ! w)" for y w
    proof -
      have yz: "y \<noteq> z" "w \<noteq> z" and ly: "live s y" using a(1,2,4) by (auto simp: live)
      show False using ginv_adj [OF inv ly, of w] a yz by (simp add: Py)
    qed
    show "live sm y \<and> is_free (pieces sm ! y)" if "y \<in> insert z H" for y
    proof (cases "y = z")
      case True
      then show ?thesis by (simp add: live Pz)
    next
      case False
      then show ?thesis using ginv_hole [OF inv, of y] that by (simp add: live Py)
    qed
    show False if "y \<in> insert z H" "i < 20" "y \<in> set (pieces_bin (bins sm ! i))" for y i
    proof (cases "y = z")
      case True
      then show ?thesis using bins_okD(1) [OF bok that(2), of z] that(3) nlz by (simp add: B)
    next
      case False
      then show ?thesis using ginv_hole_bin [OF inv, of y i] that by (simp add: B)
    qed
  qed
qed

lemma FindPiece_found_unfold:
  "FindPiece_found s aligned_size bn piece =
     (let s3 = upd (upd (s\<lparr>bins := (bins s)[bn := (bins s ! bn)\<lparr>pieces_bin :=
                   remove1 piece (pieces_bin (bins s ! bn))\<rparr>]\<rparr>)
                 piece (\<lambda>p. p\<lparr>bin_num := kInvalidBinNum\<rparr>)) piece (\<lambda>p. p\<lparr>is_free := False\<rparr>)
      in if size_piece (pieces s3 ! piece) \<ge> wrap64 (aligned_size * 2)
            \<or> size_piece (pieces s3 ! piece) - aligned_size \<ge> kPieceSplitThreshold
         then
           (let (s4, new_piece) = AllocatePiece s3;
                s13 = FindPiece_split s4 aligned_size piece new_piece
            in RV_CHECK (IsAlignedSize (size_piece (pieces s13 ! piece)) (alignment s13))
                (RV_CHECK (IsAlignedSize (size_piece (pieces s13 ! new_piece)) (alignment s13))
                  (bind_e (InsertPiece2Bin s13 new_piece) (\<lambda>s14.
                   bind_e (MarkPiece s14 new_piece) (\<lambda>s15.
                   Inr (s15, Some piece))))))
         else Inr (s3, Some piece))"
  by (simp add: FindPiece_found_def FindPiece_split_def Let_def split_def)

lemma FindPiece_split_fields:
  assumes zx: "z \<noteq> x" and zl: "z < length (pieces s)" and xl: "x < length (pieces s)"
    and nn: "\<And>n. next (pieces s ! x) = Some n \<Longrightarrow> n \<noteq> z \<and> n \<noteq> x \<and> n < length (pieces s)"
  shows "length (pieces (FindPiece_split s a x z)) = length (pieces s)"
    and "next (pieces (FindPiece_split s a x z) ! y) =
          (if y = z then next (pieces s ! x) else if y = x then Some z else next (pieces s ! y))"
    and "prev (pieces (FindPiece_split s a x z) ! y) =
          (if y = z then Some x else if next (pieces s ! x) = Some y then Some z
           else prev (pieces s ! y))"
    and "size_piece (pieces (FindPiece_split s a x z) ! y) =
          (if y = z then size_piece (pieces s ! x) - a else if y = x then a
           else size_piece (pieces s ! y))"
    and "ptr (pieces (FindPiece_split s a x z) ! y) =
          (if y = z then wrap64 (ptr (pieces s ! x) + a) else ptr (pieces s ! y))"
    and "is_free (pieces (FindPiece_split s a x z) ! y) = (y = z \<or> is_free (pieces s ! y))"
    and "bin_num (pieces (FindPiece_split s a x z) ! y) =
          (if y = z then kInvalidBinNum else bin_num (pieces s ! y))"
    and "bins (FindPiece_split s a x z) = bins s"
    and "ptr2piece (FindPiece_split s a x z) = ptr2piece s"
    and "recycle_piece_list (FindPiece_split s a x z) = recycle_piece_list s"
    and "alignment (FindPiece_split s a x z) = alignment s"
    and "total_memory_bytes (FindPiece_split s a x z) = total_memory_bytes s"
    and "mem_ptr2block (FindPiece_split s a x z) = mem_ptr2block s"
proof -
  show "length (pieces (FindPiece_split s a x z)) = length (pieces s)"
    "bins (FindPiece_split s a x z) = bins s"
    "ptr2piece (FindPiece_split s a x z) = ptr2piece s"
    "recycle_piece_list (FindPiece_split s a x z) = recycle_piece_list s"
    "alignment (FindPiece_split s a x z) = alignment s"
    "total_memory_bytes (FindPiece_split s a x z) = total_memory_bytes s"
    "mem_ptr2block (FindPiece_split s a x z) = mem_ptr2block s"
    by (simp_all add: FindPiece_split_def Let_def upd_def split: option.splits)
  show "next (pieces (FindPiece_split s a x z) ! y) =
          (if y = z then next (pieces s ! x) else if y = x then Some z else next (pieces s ! y))"
    using zx zl xl nn
    by (auto simp: FindPiece_split_def Let_def upd_def nth_list_update split: option.splits)
  show "prev (pieces (FindPiece_split s a x z) ! y) =
          (if y = z then Some x else if next (pieces s ! x) = Some y then Some z
           else prev (pieces s ! y))"
    using zx zl xl nn
    by (auto simp: FindPiece_split_def Let_def upd_def nth_list_update split: option.splits)
  show "size_piece (pieces (FindPiece_split s a x z) ! y) =
          (if y = z then size_piece (pieces s ! x) - a else if y = x then a
           else size_piece (pieces s ! y))"
    using zx zl xl nn
    by (auto simp: FindPiece_split_def Let_def upd_def nth_list_update split: option.splits)
  show "ptr (pieces (FindPiece_split s a x z) ! y) =
          (if y = z then wrap64 (ptr (pieces s ! x) + a) else ptr (pieces s ! y))"
    using zx zl xl nn
    by (auto simp: FindPiece_split_def Let_def upd_def nth_list_update split: option.splits)
  show "is_free (pieces (FindPiece_split s a x z) ! y) = (y = z \<or> is_free (pieces s ! y))"
    using zx zl xl nn
    by (auto simp: FindPiece_split_def Let_def upd_def nth_list_update split: option.splits if_splits)
  show "bin_num (pieces (FindPiece_split s a x z) ! y) =
          (if y = z then kInvalidBinNum else bin_num (pieces s ! y))"
    using zx zl xl nn
    by (auto simp: FindPiece_split_def Let_def upd_def nth_list_update split: option.splits)
qed

text \<open>Splitting an in-use Piece: the rest becomes a new live free Piece behind it, not yet
  filed.\<close>

lemma split_ginv:
  assumes inv: "ginv H s" and dz: "detached s z" and lx: "live s x"
    and nfx: "\<not> is_free (pieces s ! x)"
    and fit: "a \<le> size_piece (pieces s ! x)"
    and al1: "a mod 512 = 0" and al2: "(size_piece (pieces s ! x) - a) mod 512 = 0"
    and mk: "MarkPiece (FindPiece_split s a x z) z = Inr sm"
  shows "ginv (insert z H) sm"
    and "\<And>y. live sm y \<longleftrightarrow> y = z \<or> live s y"
    and "z \<noteq> x" and "0 < a"
    and "next (pieces sm ! x) = Some z" and "prev (pieces sm ! z) = Some x"
    and "next (pieces sm ! z) = next (pieces s ! x)"
    and "size_piece (pieces sm ! x) = a"
    and "size_piece (pieces sm ! z) = size_piece (pieces s ! x) - a"
    and "ptr (pieces sm ! z) = ptr (pieces s ! x) + a"
    and "is_free (pieces sm ! z)"
    and "\<And>y. y \<noteq> z \<Longrightarrow> ptr (pieces sm ! y) = ptr (pieces s ! y) \<and>
            is_free (pieces sm ! y) = is_free (pieces s ! y) \<and>
            bin_num (pieces sm ! y) = bin_num (pieces s ! y)"
    and "\<And>y. y \<noteq> z \<Longrightarrow> y \<noteq> x \<Longrightarrow> size_piece (pieces sm ! y) = size_piece (pieces s ! y)"
    and "next (pieces s ! x) \<noteq> None \<Longrightarrow> a < size_piece (pieces s ! x)"
    and "length (pieces sm) = length (pieces s)"
    and "bins sm = bins s"
    and "ptr2piece sm = (ptr (pieces s ! x) + a, z) # ptr2piece s"
    and "total_memory_bytes sm = total_memory_bytes s" and "mem_ptr2block sm = mem_ptr2block s"
proof -
  let ?t = "FindPiece_split s a x z"
  have zl: "z < length (pieces s)" and zu: "z \<notin> snd ` set (ptr2piece s)"
    using dz by (auto simp: detached_def)
  from dz obtain rs where rs: "chain (pieces s) (recycle_piece_list s) rs" "z \<notin> set rs"
    "\<And>x. x \<in> set rs \<Longrightarrow> x < length (pieces s) \<and> x \<notin> snd ` set (ptr2piece s)"
    unfolding detached_def by blast
  have nlz: "\<not> live s z" using zu live_mapped by blast
  have lz: "y \<noteq> z" if "live s y" for y using that nlz by auto
  show zx: "z \<noteq> x" using lz [OF lx] by simp
  have xl: "x < length (pieces s)" using lx by (rule live_length)
  note Lx = link_okD [OF ginv_link [OF inv lx]]
  have nn: "live s n \<and> prev (pieces s ! n) = Some x \<and> n \<noteq> z \<and> n \<noteq> x \<and> n < length (pieces s)
      \<and> ptr (pieces s ! n) = ptr (pieces s ! x) + size_piece (pieces s ! x)
      \<and> 0 < size_piece (pieces s ! x)"
    if "next (pieces s ! x) = Some n" for n
    using Lx(1) [OF that] lz [of n] by (auto simp: live_length)
  note F = FindPiece_split_fields [OF zx zl xl, of a]
  have len: "length (pieces ?t) = length (pieces s)" using F(1) nn by blast
  have Fn: "next (pieces ?t ! y) =
          (if y = z then next (pieces s ! x) else if y = x then Some z else next (pieces s ! y))" for y
    using F(2) nn by blast
  have Fp: "prev (pieces ?t ! y) =
          (if y = z then Some x else if next (pieces s ! x) = Some y then Some z
           else prev (pieces s ! y))" for y using F(3) nn by blast
  have Fs: "size_piece (pieces ?t ! y) =
          (if y = z then size_piece (pieces s ! x) - a else if y = x then a
           else size_piece (pieces s ! y))" for y using F(4) nn by blast
  have nowrap: "wrap64 (ptr (pieces s ! x) + a) = ptr (pieces s ! x) + a"
    using Lx(4) fit by (simp add: wrap64_def)
  have Fa: "ptr (pieces ?t ! y) =
          (if y = z then ptr (pieces s ! x) + a else ptr (pieces s ! y))" for y
    using F(5) nn nowrap by simp
  have Ff: "is_free (pieces ?t ! y) = (y = z \<or> is_free (pieces s ! y))" for y using F(6) nn by blast
  have Fb: "bin_num (pieces ?t ! y) =
          (if y = z then kInvalidBinNum else bin_num (pieces s ! y))" for y using F(7) nn by blast
  have Bt: "bins ?t = bins s" using F(8) nn by blast
  have Mt: "ptr2piece ?t = ptr2piece s" using F(9) nn by blast
  have Rt: "recycle_piece_list ?t = recycle_piece_list s" using F(10) nn by blast
  have At: "alignment ?t = alignment s" using F(11) nn by blast
  have Tt: "total_memory_bytes ?t = total_memory_bytes s" "mem_ptr2block ?t = mem_ptr2block s"
    using F(12,13) nn by blast+
  have none: "map_of (ptr2piece s) (ptr (pieces s ! x) + a) = None"
    and sm: "sm = ?t\<lparr>ptr2piece := (ptr (pieces s ! x) + a, z) # ptr2piece s\<rparr>"
    using mk by (simp_all add: MarkPiece_Inr Fa Mt)
  have Pm: "pieces sm = pieces ?t" by (simp add: sm)
  show len': "length (pieces sm) = length (pieces s)" by (simp add: Pm len)
  show B: "bins sm = bins s" and M: "ptr2piece sm = (ptr (pieces s ! x) + a, z) # ptr2piece s"
    and "total_memory_bytes sm = total_memory_bytes s" and "mem_ptr2block sm = mem_ptr2block s"
    by (simp_all add: sm Bt Tt)
  have A: "alignment sm = alignment s" and Rl: "recycle_piece_list sm = recycle_piece_list s"
    by (simp_all add: sm At Rt)
  have mok: "map_ok s" using inv by (rule ginv_map_ok)
  have bok: "bins_ok s" using inv by (rule ginv_bins_ok)
  have fresh: "ptr (pieces s ! y) \<noteq> ptr (pieces s ! x) + a" if "live s y" for y
    using that none by (auto simp: live_def)
  show a0: "0 < a" using fresh [OF lx] by auto
  show lt: "a < size_piece (pieces s ! x)" if "next (pieces s ! x) \<noteq> None"
  proof -
    from that obtain n where n: "next (pieces s ! x) = Some n" by auto
    from nn [OF n] fresh [of n] fit show ?thesis by auto
  qed
  show live: "live sm y \<longleftrightarrow> y = z \<or> live s y" for y
  proof (cases "y = z")
    case True
    then show ?thesis using zl by (simp add: live_def M Pm Fa len)
  next
    case False
    then show ?thesis using fresh [of y] by (auto simp: live_def M Pm Fa len)
  qed
  show "next (pieces sm ! x) = Some z" "prev (pieces sm ! z) = Some x"
    "next (pieces sm ! z) = next (pieces s ! x)" "size_piece (pieces sm ! x) = a"
    "size_piece (pieces sm ! z) = size_piece (pieces s ! x) - a"
    "ptr (pieces sm ! z) = ptr (pieces s ! x) + a" "is_free (pieces sm ! z)"
    using zx by (simp_all add: Pm Fn Fp Fs Fa Ff)
  show "ptr (pieces sm ! y) = ptr (pieces s ! y) \<and>
            is_free (pieces sm ! y) = is_free (pieces s ! y) \<and>
            bin_num (pieces sm ! y) = bin_num (pieces s ! y)" if "y \<noteq> z" for y
    using that by (simp add: Pm Fa Ff Fb)
  show "size_piece (pieces sm ! y) = size_piece (pieces s ! y)" if "y \<noteq> z" "y \<noteq> x" for y
    using that by (simp add: Pm Fs)
  have notbin: "y \<noteq> z \<and> y \<noteq> x" if "i < 20" "y \<in> set (pieces_bin (bins s ! i))" for i y
  proof -
    note Y = bins_okD [OF bok that]
    have "y \<noteq> x" using Y(2) nfx by auto
    then show ?thesis using lz [OF Y(1)] by simp
  qed
  show "ginv (insert z H) sm"
  proof (rule ginvI)
    show "alignment sm = 512" using ginv_alignment [OF inv] by (simp add: A)
    show "map_ok sm"
      unfolding map_ok_alt
    proof (intro allI impI)
      fix b y assume "(b, y) \<in> set (ptr2piece sm)"
      then consider "b = ptr (pieces s ! x) + a" "y = z" | "(b, y) \<in> set (ptr2piece s)"
        by (auto simp: M)
      then show "y < length (pieces sm) \<and> ptr (pieces sm ! y) = b"
      proof cases
        case 1
        then show ?thesis using zl by (simp add: Pm len Fa)
      next
        case 2
        then have "y \<noteq> z" using zu by force
        then show ?thesis using 2 mok by (auto simp: map_ok_alt Pm len Fa)
      qed
    qed
    show "bins_ok sm"
    proof (rule bins_okI)
      show "length (bins sm) = 20" using bok by (simp add: bins_ok_def B)
    next
      fix i :: nat assume i: "i < 20"
      have "sorted_wrt (PieceCmp (pieces sm)) (pieces_bin (bins s ! i))
          = sorted_wrt (PieceCmp (pieces s)) (pieces_bin (bins s ! i))"
        by (rule sorted_PieceCmp_cong) (use notbin [OF i] in \<open>simp add: Pm Fs Fa\<close>)
      then show "sorted_wrt (PieceCmp (pieces sm)) (pieces_bin (bins sm ! i))"
        using bok i by (simp add: bins_ok_def B)
    next
      fix i y assume i: "i < (20::nat)" and y: "y \<in> set (pieces_bin (bins sm ! i))"
      then have yin: "y \<in> set (pieces_bin (bins s ! i))" by (simp add: B)
      from bins_okD [OF bok i yin] notbin [OF i yin]
      show "live sm y \<and> is_free (pieces sm ! y) \<and> bin_num (pieces sm ! y) = int i"
        by (simp add: live Pm Ff Fb)
    qed
    show "recycle_ok sm"
    proof -
      have nl: "y \<noteq> z \<and> y \<noteq> x" if "y \<in> set rs" for y
        using rs(3) [OF that] rs(2) that live_mapped [OF lx] by auto
      have "chain (pieces sm) (recycle_piece_list s) rs = chain (pieces s) (recycle_piece_list s) rs"
        by (rule chain_cong) (use nl in \<open>simp add: Pm Fn\<close>)
      moreover have "y < length (pieces sm) \<and> y \<notin> snd ` set (ptr2piece sm)" if "y \<in> set rs" for y
        using rs(3) [OF that] rs(2) that by (auto simp: len' M)
      ultimately show ?thesis unfolding recycle_ok_def using rs(1) by (auto simp: Rl)
    qed
    show "link_ok sm y" if lv: "live sm y" for y
    proof -
      consider (z) "y = z" | (x) "y = x" | (o) "y \<noteq> z" "y \<noteq> x" "live s y"
        using lv by (auto simp: live)
      then show ?thesis
      proof cases
        case z
        show ?thesis
        proof (rule link_okI)
          fix w assume "next (pieces sm ! y) = Some w"
          then have nw: "next (pieces s ! x) = Some w" using z by (simp add: Pm Fn)
          from nn [OF nw] lt nw fit
          show "live sm w \<and> prev (pieces sm ! w) = Some y \<and>
              ptr (pieces sm ! w) = ptr (pieces sm ! y) + size_piece (pieces sm ! y) \<and>
              0 < size_piece (pieces sm ! y)"
            using z by (simp add: live Pm Fp Fa Fs)
        next
          fix w assume "prev (pieces sm ! y) = Some w"
          then have "w = x" using z by (simp add: Pm Fp)
          then show "live sm w \<and> next (pieces sm ! w) = Some y"
            using z zx lx by (simp add: live Pm Fn)
        next
          show "size_piece (pieces sm ! y) mod 512 = 0" using z al2 by (simp add: Pm Fs)
          show "ptr (pieces sm ! y) + size_piece (pieces sm ! y) < 2 ^ 64"
            using z Lx(4) fit by (simp add: Pm Fs Fa)
        qed
      next
        case x
        show ?thesis
        proof (rule link_okI)
          fix w assume "next (pieces sm ! y) = Some w"
          then have "w = z" using x zx by (simp add: Pm Fn)
          then show "live sm w \<and> prev (pieces sm ! w) = Some y \<and>
              ptr (pieces sm ! w) = ptr (pieces sm ! y) + size_piece (pieces sm ! y) \<and>
              0 < size_piece (pieces sm ! y)"
            using x zx a0 by (simp add: live Pm Fp Fa Fs)
        next
          fix w assume "prev (pieces sm ! y) = Some w"
          then have pw: "prev (pieces s ! x) = Some w" using x zx nn [of x] by (auto simp: Pm Fp split: if_splits)
          from Lx(2) [OF pw] have w: "live s w" "next (pieces s ! w) = Some x" by auto
          have "w \<noteq> x" using w(2) nn [of x] by auto
          then show "live sm w \<and> next (pieces sm ! w) = Some y"
            using w lz [OF w(1)] x by (simp add: live Pm Fn)
        next
          show "size_piece (pieces sm ! y) mod 512 = 0" using x zx al1 by (simp add: Pm Fs)
          show "ptr (pieces sm ! y) + size_piece (pieces sm ! y) < 2 ^ 64"
            using x zx Lx(4) fit by (simp add: Pm Fs Fa)
        qed
      next
        case o
        note Ly = link_okD [OF ginv_link [OF inv o(3)]]
        show ?thesis
        proof (rule link_okI)
          fix w assume "next (pieces sm ! y) = Some w"
          then have nw: "next (pieces s ! y) = Some w" using o by (simp add: Pm Fn)
          from Ly(1) [OF nw] have w: "live s w" "prev (pieces s ! w) = Some y"
            "ptr (pieces s ! w) = ptr (pieces s ! y) + size_piece (pieces s ! y)"
            "0 < size_piece (pieces s ! y)" by auto
          have "next (pieces s ! x) \<noteq> Some w" using nn [of w] w(2) o by auto
          then show "live sm w \<and> prev (pieces sm ! w) = Some y \<and>
              ptr (pieces sm ! w) = ptr (pieces sm ! y) + size_piece (pieces sm ! y) \<and>
              0 < size_piece (pieces sm ! y)"
            using w lz [OF w(1)] o by (simp add: live Pm Fp Fa Fs)
        next
          fix w assume pw': "prev (pieces sm ! y) = Some w"
          show "live sm w \<and> next (pieces sm ! w) = Some y"
          proof (cases "next (pieces s ! x) = Some y")
            case True
            then have "w = z" using pw' o by (simp add: Pm Fp)
            then show ?thesis using True by (simp add: live Pm Fn)
          next
            case False
            then have pw: "prev (pieces s ! y) = Some w" using pw' o by (simp add: Pm Fp)
            from Ly(2) [OF pw] have w: "live s w" "next (pieces s ! w) = Some y" by auto
            have "w \<noteq> x" using w(2) False by auto
            then show ?thesis using w lz [OF w(1)] by (simp add: live Pm Fn)
          qed
        next
          show "size_piece (pieces sm ! y) mod 512 = 0" using o Ly(3) by (simp add: Pm Fs)
          show "ptr (pieces sm ! y) + size_piece (pieces sm ! y) < 2 ^ 64"
            using o Ly(4) by (simp add: Pm Fs Fa)
        qed
      qed
    qed
    show "filed sm y" if "live sm y" "y \<notin> insert z H" for y
    proof (cases "y = x")
      case True
      then show ?thesis using zx nfx by (simp add: filed_def Pm Ff)
    next
      case False
      have yz: "y \<noteq> z" and ly: "live s y" using that by (auto simp: live)
      have "filed sm y = filed s y" using yz False by (simp add: filed_def Pm Ff Fb Fs B)
      then show ?thesis using ginv_filed [OF inv ly] that(2) by simp
    qed
    show False if c: "live sm y" "y \<notin> insert z H" "next (pieces sm ! y) = Some w" "w \<notin> insert z H"
      "is_free (pieces sm ! y)" "is_free (pieces sm ! w)" for y w
    proof -
      have yz: "y \<noteq> z" "w \<noteq> z" and ly: "live s y" using c(1,2,4) by (auto simp: live)
      have yx: "y \<noteq> x" using c(3) yz zx by (auto simp: Pm Fn)
      have "next (pieces s ! y) = Some w" using c(3) yz yx by (simp add: Pm Fn)
      from ginv_adj [OF inv ly _ this] c(2,4,5,6) yz show False by (simp add: Pm Ff)
    qed
    show "live sm y \<and> is_free (pieces sm ! y)" if "y \<in> insert z H" for y
    proof (cases "y = z")
      case True
      then show ?thesis by (simp add: live Pm Ff)
    next
      case False
      then show ?thesis using ginv_hole [OF inv, of y] that by (simp add: live Pm Ff)
    qed
    show False if "y \<in> insert z H" "i < 20" "y \<in> set (pieces_bin (bins sm ! i))" for y i
    proof (cases "y = z")
      case True
      then show ?thesis using notbin [OF that(2), of z] that(3) by (simp add: B)
    next
      case False
      then show ?thesis using ginv_hole_bin [OF inv, of y i] that by (simp add: B)
    qed
  qed
qed

lemma IsAlignedSize_512 [simp]: "IsAlignedSize n 512 \<longleftrightarrow> n mod 512 = 0"
  by (simp add: IsAlignedSize_def)

lemma FindPiece_found_ginv:
  assumes inv: "ginv {} s" and bn: "bn < 20" and xin: "x \<in> set (pieces_bin (bins s ! bn))"
    and fit: "a \<le> size_piece (pieces s ! x)"
    and res: "FindPiece_found s a bn x = Inr (s', r)"
  shows "ginv {} s'" and "r = Some x"
    and "live s x" and "is_free (pieces s ! x)"
    and "live s' x" and "\<not> is_free (pieces s' ! x)" and "ptr (pieces s' ! x) = ptr (pieces s ! x)"
    and "\<not> FindPiece_splits (size_piece (pieces s ! x)) a \<Longrightarrow>
           size_piece (pieces s' ! x) = size_piece (pieces s ! x) \<and>
           next (pieces s' ! x) = next (pieces s ! x) \<and>
           (\<forall>y. live s' y = live s y) \<and> ptr2piece s' = ptr2piece s"
    and "FindPiece_splits (size_piece (pieces s ! x)) a \<Longrightarrow>
           size_piece (pieces s' ! x) = a \<and> 0 < a \<and>
           (\<exists>z. next (pieces s' ! x) = Some z \<and> \<not> live s z \<and> live s' z \<and>
              is_free (pieces s' ! z) \<and>
              size_piece (pieces s' ! z) = size_piece (pieces s ! x) - a \<and>
              ptr (pieces s' ! z) = ptr (pieces s ! x) + a \<and>
              prev (pieces s' ! z) = Some x \<and> next (pieces s' ! z) = next (pieces s ! x) \<and>
              (next (pieces s ! x) \<noteq> None \<longrightarrow> a < size_piece (pieces s ! x)) \<and>
              ptr2piece s' = (ptr (pieces s ! x) + a, z) # ptr2piece s \<and>
              (\<forall>y. live s' y \<longleftrightarrow> y = z \<or> live s y))"
    and "\<And>y. live s y \<Longrightarrow> y \<noteq> x \<Longrightarrow>
           ptr (pieces s' ! y) = ptr (pieces s ! y) \<and>
           size_piece (pieces s' ! y) = size_piece (pieces s ! y) \<and>
           is_free (pieces s' ! y) = is_free (pieces s ! y)"
    and "total_memory_bytes s' = total_memory_bytes s" and "mem_ptr2block s' = mem_ptr2block s"
proof -
  define s3 where "s3 = upd (upd (s\<lparr>bins := (bins s)[bn := (bins s ! bn)\<lparr>pieces_bin :=
                   remove1 x (pieces_bin (bins s ! bn))\<rparr>]\<rparr>)
                 x (\<lambda>p. p\<lparr>bin_num := kInvalidBinNum\<rparr>)) x (\<lambda>p. p\<lparr>is_free := False\<rparr>)"
  note T = take_ginv [OF inv bn xin s3_def]
  show lx: "live s x" and fx: "is_free (pieces s ! x)" using T(8,9) by auto
  have xl: "x < length (pieces s)" using lx by (rule live_length)
  have F3: "next (pieces s3 ! y) = next (pieces s ! y)"
    "prev (pieces s3 ! y) = prev (pieces s ! y)"
    "ptr (pieces s3 ! y) = ptr (pieces s ! y)"
    "size_piece (pieces s3 ! y) = size_piece (pieces s ! y)"
    "is_free (pieces s3 ! y) = (y \<noteq> x \<and> is_free (pieces s ! y))" for y
    using xl unfolding T(2) by (auto simp: nth_list_update)
  have len3: "length (pieces s3) = length (pieces s)" by (simp add: T(2))
  have l3: "live s3 y = live s y" for y by (simp add: live_def F3 len3 T(3))
  have A3: "alignment s3 = 512" using ginv_alignment [OF T(1)] .
  have main: "ginv {} s' \<and> r = Some x \<and> live s' x \<and> \<not> is_free (pieces s' ! x)
    \<and> ptr (pieces s' ! x) = ptr (pieces s ! x)
    \<and> (\<not> FindPiece_splits (size_piece (pieces s ! x)) a \<longrightarrow>
           size_piece (pieces s' ! x) = size_piece (pieces s ! x) \<and>
           next (pieces s' ! x) = next (pieces s ! x) \<and>
           (\<forall>y. live s' y = live s y) \<and> ptr2piece s' = ptr2piece s)
    \<and> (FindPiece_splits (size_piece (pieces s ! x)) a \<longrightarrow>
           size_piece (pieces s' ! x) = a \<and> 0 < a \<and>
           (\<exists>z. next (pieces s' ! x) = Some z \<and> \<not> live s z \<and> live s' z \<and>
              is_free (pieces s' ! z) \<and>
              size_piece (pieces s' ! z) = size_piece (pieces s ! x) - a \<and>
              ptr (pieces s' ! z) = ptr (pieces s ! x) + a \<and>
              prev (pieces s' ! z) = Some x \<and> next (pieces s' ! z) = next (pieces s ! x) \<and>
              (next (pieces s ! x) \<noteq> None \<longrightarrow> a < size_piece (pieces s ! x)) \<and>
              ptr2piece s' = (ptr (pieces s ! x) + a, z) # ptr2piece s \<and>
              (\<forall>y. live s' y \<longleftrightarrow> y = z \<or> live s y)))
    \<and> (\<forall>y. live s y \<longrightarrow> y \<noteq> x \<longrightarrow>
           ptr (pieces s' ! y) = ptr (pieces s ! y) \<and>
           size_piece (pieces s' ! y) = size_piece (pieces s ! y) \<and>
           is_free (pieces s' ! y) = is_free (pieces s ! y))
    \<and> total_memory_bytes s' = total_memory_bytes s \<and> mem_ptr2block s' = mem_ptr2block s"
  proof (cases "FindPiece_splits (size_piece (pieces s ! x)) a")
    case False
    then have "s' = s3" "r = Some x"
      using res unfolding FindPiece_found_unfold Let_def s3_def [symmetric]
      by (simp_all add: F3 FindPiece_splits_def)
    then show ?thesis using T(1) False lx T(3,5,6) by (simp add: l3 F3)
  next
    case True
    obtain s4 z where ap: "AllocatePiece s3 = (s4, z)" by (cases "AllocatePiece s3") auto
    note AP = AllocatePiece_ginv [OF T(1) ap]
    have xl3: "x < length (pieces s3)" using xl by (simp add: len3)
    have F4: "next (pieces s4 ! y) = next (pieces s ! y)"
      "prev (pieces s4 ! y) = prev (pieces s ! y)"
      "ptr (pieces s4 ! y) = ptr (pieces s ! y)"
      "size_piece (pieces s4 ! y) = size_piece (pieces s ! y)"
      "is_free (pieces s4 ! y) = (y \<noteq> x \<and> is_free (pieces s ! y))" if "y < length (pieces s)" for y
      using AP(5) [of y] that F3 by (simp_all add: len3)
    have l4: "live s4 y = live s y" for y using AP(6) l3 by simp
    have A4: "alignment s4 = 512" using AP(11) A3 by simp
    let ?t = "FindPiece_split s4 a x z"
    have zx: "z \<noteq> x" using AP(3) l4 lx by auto
    have zl4: "z < length (pieces s4)" using AP(2) by (simp add: detached_def)
    have xl4: "x < length (pieces s4)" using xl3 AP(4) by simp
    have szt: "size_piece (pieces ?t ! x) = a"
      "size_piece (pieces ?t ! z) = size_piece (pieces s ! x) - a"
      "alignment ?t = 512"
    proof -
      have nn: "n \<noteq> z \<and> n \<noteq> x \<and> n < length (pieces s4)" if "next (pieces s4 ! x) = Some n" for n
      proof -
        have "live s4 x" using l4 lx by simp
        from link_ok_next [OF ginv_link [OF AP(1) this] that] AP(3)
        show ?thesis by (auto simp: live_length)
      qed
      note Ft = FindPiece_split_fields [OF zx zl4 xl4, of a]
      show "size_piece (pieces ?t ! x) = a"
        "size_piece (pieces ?t ! z) = size_piece (pieces s ! x) - a" "alignment ?t = 512"
        using Ft(4) [of x] Ft(4) [of z] Ft(11) nn zx F4(4) [OF xl] A4 by auto
    qed
    from res True have
      R: "a mod 512 = 0" "(size_piece (pieces s ! x) - a) mod 512 = 0"
        "bind_e (InsertPiece2Bin ?t z) (\<lambda>s14. MarkPiece s14 z) = Inr s'" "r = Some x"
      unfolding FindPiece_found_unfold Let_def s3_def [symmetric]
      by (auto simp: F3 FindPiece_splits_def ap RV_CHECK_Inr bind_e_Inr szt)
    from Insert_Mark_commute [OF R(3)] obtain sm where
      sm: "MarkPiece ?t z = Inr sm" "InsertPiece2Bin sm z = Inr s'" by blast
    have lx4: "live s4 x" using l4 lx by simp
    have nfx4: "\<not> is_free (pieces s4 ! x)" using F4(5) [OF xl] by simp
    have fit4: "a \<le> size_piece (pieces s4 ! x)" using fit F4(4) [OF xl] by simp
    have al2: "(size_piece (pieces s4 ! x) - a) mod 512 = 0" using R(2) F4(4) [OF xl] by simp
    note S = split_ginv [OF AP(1) AP(2) lx4 nfx4 fit4 R(1) al2 sm(1)]
    have cl: "\<forall>y. next (pieces sm ! z) = Some y \<longrightarrow> \<not> is_free (pieces sm ! y)"
      "\<forall>y. prev (pieces sm ! z) = Some y \<longrightarrow> \<not> is_free (pieces sm ! y)"
    proof -
      show "\<forall>y. next (pieces sm ! z) = Some y \<longrightarrow> \<not> is_free (pieces sm ! y)"
      proof (intro allI impI)
        fix y assume "next (pieces sm ! z) = Some y"
        then have n4: "next (pieces s4 ! x) = Some y" using S(7) by simp
        have ly: "live s4 y" using link_ok_next [OF ginv_link [OF AP(1) lx4] n4] by simp
        then have yl: "y < length (pieces s)" using l4 live_length by blast
        have yz: "y \<noteq> z" using ly AP(3) by auto
        have "next (pieces s ! x) = Some y" using n4 F4(1) [OF xl] by simp
        then have "\<not> is_free (pieces s ! y)" using T(11) by simp
        then show "\<not> is_free (pieces sm ! y)" using S(12) [OF yz] F4(5) [OF yl] by simp
      qed
      show "\<forall>y. prev (pieces sm ! z) = Some y \<longrightarrow> \<not> is_free (pieces sm ! y)"
        using S(6) S(12) [of x] zx nfx4 by auto
    qed
    have zz: "z \<in> insert z {}" by simp
    note I = InsertPiece2Bin_ginv [OF S(1) zz sm(2) cl]
    have g': "ginv {} s'" using I(1) by simp
    note FI = RemovePieceFromBin_fields [OF I(2)]
    have l': "live s' y = live sm y" for y
      by (rule live_ptr_cong) (simp_all add: I(3) FI)
    have nlz: "\<not> live s z" using AP(3) l4 by simp
    have rest: "ptr (pieces s' ! y) = ptr (pieces s ! y) \<and>
           size_piece (pieces s' ! y) = size_piece (pieces s ! y) \<and>
           is_free (pieces s' ! y) = is_free (pieces s ! y)" if "live s y" "y \<noteq> x" for y
    proof -
      have yz: "y \<noteq> z" using that(1) nlz by auto
      have yl: "y < length (pieces s)" using that(1) by (rule live_length)
      show ?thesis using S(12) [OF yz] S(13) [OF yz that(2)] F4 [OF yl] that(2) by (simp add: FI)
    qed
    have "size_piece (pieces s' ! x) = a \<and> 0 < a \<and>
           (\<exists>z. next (pieces s' ! x) = Some z \<and> \<not> live s z \<and> live s' z \<and>
              is_free (pieces s' ! z) \<and>
              size_piece (pieces s' ! z) = size_piece (pieces s ! x) - a \<and>
              ptr (pieces s' ! z) = ptr (pieces s ! x) + a \<and>
              prev (pieces s' ! z) = Some x \<and> next (pieces s' ! z) = next (pieces s ! x) \<and>
              (next (pieces s ! x) \<noteq> None \<longrightarrow> a < size_piece (pieces s ! x)) \<and>
              ptr2piece s' = (ptr (pieces s ! x) + a, z) # ptr2piece s \<and>
              (\<forall>y. live s' y \<longleftrightarrow> y = z \<or> live s y))"
      using S(4,5,6,7,8,9,10,11,14,17) S(2) nlz F4 [OF xl] I(3) T(3) AP(8)
      by (auto simp: FI l' l4 intro!: exI [of _ z])
    moreover have "live s' x \<and> \<not> is_free (pieces s' ! x) \<and> ptr (pieces s' ! x) = ptr (pieces s ! x)"
      using S(2) [of x] S(12) [of x] zx lx4 nfx4 F4(3) [OF xl] by (simp add: l' FI)
    moreover have "total_memory_bytes s' = total_memory_bytes s \<and> mem_ptr2block s' = mem_ptr2block s"
      using I(5,6) S(18,19) AP(9,10) T(5,6) by simp
    ultimately show ?thesis using g' R(4) True rest by blast
  qed
  then show "ginv {} s'" and "r = Some x"
    and "live s' x" and "\<not> is_free (pieces s' ! x)" and "ptr (pieces s' ! x) = ptr (pieces s ! x)"
    and "\<not> FindPiece_splits (size_piece (pieces s ! x)) a \<Longrightarrow>
           size_piece (pieces s' ! x) = size_piece (pieces s ! x) \<and>
           next (pieces s' ! x) = next (pieces s ! x) \<and>
           (\<forall>y. live s' y = live s y) \<and> ptr2piece s' = ptr2piece s"
    and "FindPiece_splits (size_piece (pieces s ! x)) a \<Longrightarrow>
           size_piece (pieces s' ! x) = a \<and> 0 < a \<and>
           (\<exists>z. next (pieces s' ! x) = Some z \<and> \<not> live s z \<and> live s' z \<and>
              is_free (pieces s' ! z) \<and>
              size_piece (pieces s' ! z) = size_piece (pieces s ! x) - a \<and>
              ptr (pieces s' ! z) = ptr (pieces s ! x) + a \<and>
              prev (pieces s' ! z) = Some x \<and> next (pieces s' ! z) = next (pieces s ! x) \<and>
              (next (pieces s ! x) \<noteq> None \<longrightarrow> a < size_piece (pieces s ! x)) \<and>
              ptr2piece s' = (ptr (pieces s ! x) + a, z) # ptr2piece s \<and>
              (\<forall>y. live s' y \<longleftrightarrow> y = z \<or> live s y))"
    and "\<And>y. live s y \<Longrightarrow> y \<noteq> x \<Longrightarrow>
           ptr (pieces s' ! y) = ptr (pieces s ! y) \<and>
           size_piece (pieces s' ! y) = size_piece (pieces s ! y) \<and>
           is_free (pieces s' ! y) = is_free (pieces s ! y)"
    and "total_memory_bytes s' = total_memory_bytes s" and "mem_ptr2block s' = mem_ptr2block s"
    by blast+
qed

lemma FindPiece_found_Some: "FindPiece_found s a bn x = Inr (s', r) \<Longrightarrow> r = Some x"
  unfolding FindPiece_found_unfold
  by (auto simp: Let_def RV_CHECK_Inr bind_e_Inr split: if_splits prod.splits)

lemma FindPiece_bin_spec:
  "FindPiece_bin s a bn xs = Inr (s', r) \<Longrightarrow>
     (case List.find (\<lambda>x. a \<le> size_piece (pieces s ! x)) xs of
        None \<Rightarrow> r = None \<and> s' = s
      | Some x \<Rightarrow> FindPiece_found s a bn x = Inr (s', r))"
  by (induction xs) (auto simp: RV_CHECK_Inr split: if_splits)

lemma find_app:
  "List.find P (xs @ ys) = (case List.find P xs of None \<Rightarrow> List.find P ys | Some x \<Rightarrow> Some x)"
  by (induction xs) auto

lemma find_concat_drop:
  assumes "n < length bs"
  shows "List.find P (concat (map f (drop n bs))) =
         (case List.find P (f (bs ! n)) of
            None \<Rightarrow> List.find P (concat (map f (drop (Suc n) bs)))
          | Some x \<Rightarrow> Some x)"
  using assms by (simp add: Cons_nth_drop_Suc [symmetric] find_app)

lemma FindPiece_from_spec:
  "FindPiece_from s a b = Inr (s', r) \<Longrightarrow> 0 \<le> b \<Longrightarrow> length (bins s) = 20 \<Longrightarrow>
     (case List.find (\<lambda>x. a \<le> size_piece (pieces s ! x))
             (concat (map pieces_bin (drop (nat b) (bins s)))) of
        None \<Rightarrow> r = None \<and> s' = s
      | Some x \<Rightarrow> \<exists>bn. nat b \<le> bn \<and> bn < 20 \<and> x \<in> set (pieces_bin (bins s ! bn)) \<and>
                      FindPiece_found s a bn x = Inr (s', r))"
proof (induction s a b rule: FindPiece_from.induct)
  case (1 s a b)
  show ?case
  proof (cases "b < kBinNumSize")
    case False
    then have "r = None" "s' = s" "20 \<le> nat b"
      using "1.prems"(1) by (simp_all add: FindPiece_from.simps [of s a b] kBinNumSize_def)
    then show ?thesis using "1.prems"(3) by simp
  next
    case True
    then have b20: "nat b < 20" using "1.prems"(2) by (simp add: kBinNumSize_def)
    have at: "bins_at (bins s) b = Inr (bins s ! nat b)"
      using b20 "1.prems"(2,3) by (simp add: bins_at_def)
    obtain s1 r1 where inner: "FindPiece_bin s a (nat b) (pieces_bin (bins s ! nat b)) = Inr (s1, r1)"
      using "1.prems"(1) True at
      by (cases "FindPiece_bin s a (nat b) (pieces_bin (bins s ! nat b))")
        (auto simp: FindPiece_from.simps [of s a b] split: sum.splits)
    note sp = FindPiece_bin_spec [OF inner]
    have fd: "List.find (\<lambda>x. a \<le> size_piece (pieces s ! x)) (concat (map pieces_bin (drop (nat b) (bins s))))
        = (case List.find (\<lambda>x. a \<le> size_piece (pieces s ! x)) (pieces_bin (bins s ! nat b)) of
            None \<Rightarrow> List.find (\<lambda>x. a \<le> size_piece (pieces s ! x))
                      (concat (map pieces_bin (drop (Suc (nat b)) (bins s))))
          | Some x \<Rightarrow> Some x)"
      using b20 "1.prems"(3) by (intro find_concat_drop) simp
    show ?thesis
    proof (cases "List.find (\<lambda>x. a \<le> size_piece (pieces s ! x)) (pieces_bin (bins s ! nat b))")
      case None
      then have s1: "r1 = None" "s1 = s" using sp by simp_all
      have rec: "FindPiece_from s a (b + 1) = Inr (s', r)"
        using "1.prems"(1) True at inner s1 by (simp add: FindPiece_from.simps [of s a b])
      have "nat (b + 1) = Suc (nat b)" using "1.prems"(2) by simp
      with "1.IH" [OF True at inner [unfolded s1] refl _ rec [unfolded s1]] "1.prems"(2,3) s1
      show ?thesis unfolding fd None
        by (auto split: option.splits intro: Suc_leD)
    next
      case (Some x)
      then have fnd: "FindPiece_found s a (nat b) x = Inr (s1, r1)" using sp by simp
      then have r1: "r1 = Some x" by (rule FindPiece_found_Some)
      have "s' = s1" "r = r1"
        using "1.prems"(1) True at inner r1 by (simp_all add: FindPiece_from.simps [of s a b])
      moreover have "x \<in> set (pieces_bin (bins s ! nat b))"
        using Some by (auto simp: find_Some_iff)
      ultimately show ?thesis unfolding fd Some using fnd b20 by auto
    qed
  qed
qed

lemma FindPiece_spec:
  assumes "FindPiece s a = Inr (s', r)" "length (bins s) = 20"
  shows "r = first_fit s a"
    and "r = None \<Longrightarrow> s' = s"
    and "\<And>x. r = Some x \<Longrightarrow> \<exists>bn. nat (BinNum4BinSize a) \<le> bn \<and> bn < 20 \<and>
            x \<in> set (pieces_bin (bins s ! bn)) \<and> a \<le> size_piece (pieces s ! x) \<and>
            FindPiece_found s a bn x = Inr (s', r)"
proof -
  note sp = FindPiece_from_spec [OF assms(1) [unfolded FindPiece_def] BinNum4BinSize_nonneg assms(2)]
  show "r = first_fit s a"
    using sp FindPiece_found_Some
    by (fastforce simp: first_fit_def scan_order_def split: option.splits)
  show "s' = s" if "r = None"
    using sp that FindPiece_found_Some by (fastforce split: option.splits)
  show "\<exists>bn. nat (BinNum4BinSize a) \<le> bn \<and> bn < 20 \<and>
            x \<in> set (pieces_bin (bins s ! bn)) \<and> a \<le> size_piece (pieces s ! x) \<and>
            FindPiece_found s a bn x = Inr (s', r)" if "r = Some x" for x
  proof (cases "List.find (\<lambda>x. a \<le> size_piece (pieces s ! x))
             (concat (map pieces_bin (drop (nat (BinNum4BinSize a)) (bins s))))")
    case None
    then show ?thesis using sp that by simp
  next
    case (Some y)
    then obtain bn where bn: "nat (BinNum4BinSize a) \<le> bn" "bn < 20"
      "y \<in> set (pieces_bin (bins s ! bn))" "FindPiece_found s a bn y = Inr (s', r)"
      using sp by auto
    have "y = x" using FindPiece_found_Some [OF bn(4)] that by simp
    moreover have "a \<le> size_piece (pieces s ! y)" using Some by (auto simp: find_Some_iff)
    ultimately show ?thesis using bn by blast
  qed
qed

lemma RoundUp_exact:
  assumes "0 < val" "n + val - 1 < 2 ^ 64"
  shows "RoundUp n val = (n + val - 1) div val * val"
proof -
  have "(n + val - 1) div val * val \<le> n + val - 1" by simp
  then have "(n + val - 1) div val * val < 2 ^ 64" using assms(2) by linarith
  then show ?thesis using assms(2) by (simp add: RoundUp_def wrap64_def)
qed

lemma RoundUp_mod:
  assumes "0 < val"
  shows "RoundUp n val mod val = 0" and "RoundUp n val < 2 ^ 64"
proof -
  let ?m = "wrap64 (n + val - 1)"
  have "?m < 2 ^ 64" by (simp add: wrap64_def)
  moreover have "?m div val * val \<le> ?m" by simp
  ultimately have lt: "?m div val * val < 2 ^ 64" by linarith
  then have eq: "RoundUp n val = ?m div val * val" by (simp add: RoundUp_def wrap64_def [of "_ * _"])
  show "RoundUp n val mod val = 0" by (simp add: eq)
  show "RoundUp n val < 2 ^ 64" using lt by (simp add: eq)
qed

lemma RoundUp_512:
  assumes "m mod 512 = 0" "m < 2 ^ 64"
  shows "RoundUp m 512 = m"
proof -
  from assms(1) obtain k where k: "m = 512 * k" by (auto simp: mod_eq_0_iff_dvd)
  have "512 * k < (18446744073709551616::nat)" using assms(2) k by simp
  then have "k < 36028797018963968" by simp
  then have "512 * k + 511 < (18446744073709551616::nat)" by simp
  then have "m + 511 < 2 ^ 64" using k by simp
  then have "RoundUp m 512 = (m + 511) div 512 * 512"
    using RoundUp_exact [of 512 m] by simp
  also have "\<dots> = m" unfolding k by simp
  finally show ?thesis .
qed

lemma final_allocate_bytes_512:
  "final_allocate_bytes 512 a =
     (if a < 1048576 then 2097152 else if a < 10485760 then 20971520 else RoundUp a 2097152)"
proof -
  have "RoundUp (RoundUp a 2097152) 512 = RoundUp a 2097152"
  proof (rule RoundUp_512)
    have "RoundUp a 2097152 mod 2097152 = 0" by (rule RoundUp_mod) simp
    then have "2097152 dvd RoundUp a 2097152" by (simp add: dvd_eq_mod_eq_0)
    moreover have "(512::nat) dvd 2097152" by simp
    ultimately have "512 dvd RoundUp a 2097152" by (rule dvd_trans [rotated])
    then show "RoundUp a 2097152 mod 512 = 0" by (simp add: dvd_eq_mod_eq_0)
    show "RoundUp a 2097152 < 2 ^ 64" by (rule RoundUp_mod) simp
  qed
  moreover have "RoundUp 2097152 512 = 2097152" "RoundUp 20971520 512 = 20971520"
    by (rule RoundUp_512; simp)+
  ultimately show ?thesis by (simp add: final_allocate_bytes_def MemAlignedBytes_def Let_def)
qed

lemma final_allocate_bytes_facts:
  "final_allocate_bytes 512 a mod 512 = 0"
  "final_allocate_bytes 512 a < 2 ^ 64"
  "a \<le> final_allocate_bytes 512 a \<Longrightarrow> 0 < final_allocate_bytes 512 a"
proof -
  have m: "RoundUp a 2097152 mod 2097152 = 0" and l: "RoundUp a 2097152 < 2 ^ 64"
    by (rule RoundUp_mod; simp)+
  from m have "2097152 dvd RoundUp a 2097152" by (simp add: dvd_eq_mod_eq_0)
  moreover have "(512::nat) dvd 2097152" by simp
  ultimately have "512 dvd RoundUp a 2097152" by (rule dvd_trans [rotated])
  then have "RoundUp a 2097152 mod 512 = 0" by (simp add: dvd_eq_mod_eq_0)
  then show "final_allocate_bytes 512 a mod 512 = 0" by (simp add: final_allocate_bytes_512)
  show "final_allocate_bytes 512 a < 2 ^ 64" using l by (simp add: final_allocate_bytes_512)
  show "0 < final_allocate_bytes 512 a" if "a \<le> final_allocate_bytes 512 a"
    using that by (auto simp: final_allocate_bytes_512 split: if_splits)
qed

text \<open>Growth: a fresh Block enters the arena as one free Piece, filed and registered.\<close>

lemma AllocateBlockToExtendTotalMem_ginv:
  assumes inv: "ginv {} s" and sub: "substrate_ok f"
    and res: "AllocateBlockToExtendTotalMem f s a = Inr (s', ok)"
  shows "ginv {} s'"
    and "\<not> ok \<Longrightarrow> s' = s"
    and "ok \<longleftrightarrow> a \<le> final_allocate_bytes 512 a \<and> f (final_allocate_bytes 512 a) \<noteq> 0"
    and "ok \<Longrightarrow>
          total_memory_bytes s' = wrap64 (total_memory_bytes s + final_allocate_bytes 512 a) \<and>
          (\<exists>z. \<not> live s z \<and> (\<forall>y. live s' y \<longleftrightarrow> y = z \<or> live s y) \<and>
             size_piece (pieces s' ! z) = final_allocate_bytes 512 a \<and>
             ptr (pieces s' ! z) = f (final_allocate_bytes 512 a) \<and>
             is_free (pieces s' ! z) \<and> prev (pieces s' ! z) = None \<and> next (pieces s' ! z) = None \<and>
             (\<forall>y. live s y \<longrightarrow> pieces s' ! y = pieces s ! y) \<and>
             ptr2piece s' = (f (final_allocate_bytes 512 a), z) # ptr2piece s \<and>
             mem_ptr2block s' =
               (if map_of (mem_ptr2block s) (f (final_allocate_bytes 512 a)) = None
                then (f (final_allocate_bytes 512 a),
                      \<lparr>size_block = final_allocate_bytes 512 a,
                       ptr_block = f (final_allocate_bytes 512 a),
                       start_piece = Some z\<rparr>) # mem_ptr2block s
                else mem_ptr2block s))"
proof -
  let ?n = "final_allocate_bytes 512 a"
  let ?p = "f ?n"
  have A: "alignment s = 512" using inv by (rule ginv_alignment)
  show okiff: "ok \<longleftrightarrow> a \<le> ?n \<and> ?p \<noteq> 0"
    using res
    by (auto simp: AllocateBlockToExtendTotalMem_def A Let_def bind_e_Inr split: if_splits prod.splits)
  show nok: "s' = s" if "\<not> ok"
    using res that
    by (auto simp: AllocateBlockToExtendTotalMem_def A Let_def bind_e_Inr split: if_splits prod.splits)
  have main: "ginv {} s' \<and> (ok \<longrightarrow>
          total_memory_bytes s' = wrap64 (total_memory_bytes s + ?n) \<and>
          (\<exists>z. \<not> live s z \<and> (\<forall>y. live s' y \<longleftrightarrow> y = z \<or> live s y) \<and>
             size_piece (pieces s' ! z) = ?n \<and> ptr (pieces s' ! z) = ?p \<and>
             is_free (pieces s' ! z) \<and> prev (pieces s' ! z) = None \<and> next (pieces s' ! z) = None \<and>
             (\<forall>y. live s y \<longrightarrow> pieces s' ! y = pieces s ! y) \<and>
             ptr2piece s' = (?p, z) # ptr2piece s \<and>
             mem_ptr2block s' =
               (if map_of (mem_ptr2block s) ?p = None
                then (?p, \<lparr>size_block = ?n, ptr_block = ?p, start_piece = Some z\<rparr>) # mem_ptr2block s
                else mem_ptr2block s)))"
  proof (cases ok)
    case False
    then show ?thesis using nok inv by simp
  next
    case True
    then have ge: "a \<le> ?n" and p0: "?p \<noteq> 0" using okiff by auto
    define s1 where "s1 = s\<lparr>total_memory_bytes := wrap64 (total_memory_bytes s + ?n)\<rparr>"
    obtain s2 z where ap: "AllocatePiece s1 = (s2, z)" by (cases "AllocatePiece s1") auto
    define s3 where "s3 = upd s2 z (\<lambda>p. p\<lparr>size_piece := ?n, ptr := ?p, prev := None,
                 next := None, is_free := True, bin_num := kInvalidBinNum\<rparr>)"
    from res ge p0 obtain s5 where
      R: "bind_e (InsertPiece2Bin s3 z) (\<lambda>s4. MarkPiece s4 z) = Inr s5"
        "s' = s5\<lparr>mem_ptr2block :=
                 (if map_of (mem_ptr2block s5) ?p = None
                  then (?p, \<lparr>size_block = size_piece (pieces s5 ! z),
                            ptr_block = ptr (pieces s5 ! z), start_piece = Some z\<rparr>) # mem_ptr2block s5
                  else mem_ptr2block s5)\<rparr>"
      unfolding AllocateBlockToExtendTotalMem_def A Let_def s1_def [symmetric]
      by (auto simp: ap s3_def bind_e_Inr)
    from Insert_Mark_commute [OF R(1)] obtain sm where
      sm: "MarkPiece s3 z = Inr sm" "InsertPiece2Bin sm z = Inr s5" by blast
    have "recycle_ok s1" using ginv_recycle_ok [OF inv] by (simp add: recycle_ok_def s1_def)
    then have g1: "ginv {} s1" by (intro ginv_cong [OF inv]) (simp_all add: s1_def)
    have l1: "live s1 y = live s y" for y by (simp add: live_def s1_def)
    note AP = AllocatePiece_ginv [OF g1 ap]
    have "?p = 0 \<or> ?p + ?n < 2 ^ 64" using sub unfolding substrate_ok_def by (rule spec)
    then have en: "?p + ?n < 2 ^ 64" using p0 by simp
    note PL = plant_ginv [OF AP(1) AP(2) s3_def final_allocate_bytes_facts(1) en sm(1)]
    have cl: "\<forall>y. next (pieces sm ! z) = Some y \<longrightarrow> \<not> is_free (pieces sm ! y)"
      "\<forall>y. prev (pieces sm ! z) = Some y \<longrightarrow> \<not> is_free (pieces sm ! y)"
      by (simp_all add: PL(4))
    have zz: "z \<in> insert z {}" by simp
    note I = InsertPiece2Bin_ginv [OF PL(1) zz sm(2) cl]
    have g5: "ginv {} s5" using I(1) by simp
    note FI = RemovePieceFromBin_fields [OF I(2)]
    have l5: "live s5 y = live sm y" for y
      by (rule live_ptr_cong) (simp_all add: I(3) FI)
    have "recycle_ok s'" using ginv_recycle_ok [OF g5] by (simp add: recycle_ok_def R(2))
    then have g': "ginv {} s'" by (intro ginv_cong [OF g5]) (simp_all add: R(2))
    have l': "live s' y = live s5 y" for y by (simp add: live_def R(2))
    have nlz: "\<not> live s z" using AP(3) AP(6) l1 by simp
    have P5: "pieces s5 ! y = pieces s ! y" if "live s y" for y
    proof -
      have yz: "y \<noteq> z" using that nlz by auto
      have yl: "y < length (pieces s1)" using that by (simp add: live_def s1_def)
      have "pieces s5 ! y = pieces sm ! y"
        using yz PL(5) AP(2) by (simp add: I(2) detached_def)
      then show ?thesis using PL(3) [OF yz] AP(5) [OF yl] by (simp add: s1_def)
    qed
    have Pz: "size_piece (pieces s5 ! z) = ?n" "ptr (pieces s5 ! z) = ?p" "is_free (pieces s5 ! z)"
      "prev (pieces s5 ! z) = None" "next (pieces s5 ! z) = None"
      by (simp_all add: FI PL(4))
    have tot: "total_memory_bytes s5 = wrap64 (total_memory_bytes s + ?n)"
      "mem_ptr2block s5 = mem_ptr2block s"
      using I(5,6) PL(9,10) AP(9,10) by (simp_all add: s1_def)
    have M5: "ptr2piece s5 = (?p, z) # ptr2piece s" using I(3) PL(7) AP(8) by (simp add: s1_def)
    have E': "pieces s' = pieces s5" "ptr2piece s' = ptr2piece s5"
      "total_memory_bytes s' = total_memory_bytes s5"
      "mem_ptr2block s' = (if map_of (mem_ptr2block s) ?p = None
                then (?p, \<lparr>size_block = ?n, ptr_block = ?p, start_piece = Some z\<rparr>) # mem_ptr2block s
                else mem_ptr2block s)"
      by (simp_all add: R(2) Pz tot)
    have lv: "live s' y \<longleftrightarrow> y = z \<or> live s y" for y
      by (simp add: l' l5 PL(2) AP(6) l1)
    show ?thesis
      using g' nlz Pz P5 tot(1) M5 lv E'(4)
      by (auto simp: E'(1-3) intro!: exI [of _ z])
  qed
  then show "ginv {} s'"
    and "ok \<Longrightarrow>
          total_memory_bytes s' = wrap64 (total_memory_bytes s + ?n) \<and>
          (\<exists>z. \<not> live s z \<and> (\<forall>y. live s' y \<longleftrightarrow> y = z \<or> live s y) \<and>
             size_piece (pieces s' ! z) = ?n \<and> ptr (pieces s' ! z) = ?p \<and>
             is_free (pieces s' ! z) \<and> prev (pieces s' ! z) = None \<and> next (pieces s' ! z) = None \<and>
             (\<forall>y. live s y \<longrightarrow> pieces s' ! y = pieces s ! y) \<and>
             ptr2piece s' = (?p, z) # ptr2piece s \<and>
             mem_ptr2block s' =
               (if map_of (mem_ptr2block s) ?p = None
                then (?p, \<lparr>size_block = ?n, ptr_block = ?p, start_piece = Some z\<rparr>) # mem_ptr2block s
                else mem_ptr2block s))"
    by blast+
qed

lemma FindPiece_ginv:
  assumes inv: "ginv {} s" and res: "FindPiece s a = Inr (s', r)"
  shows "ginv {} s'"
proof (cases r)
  case None
  have "length (bins s) = 20" using ginv_bins_ok [OF inv] by (simp add: bins_ok_def)
  from FindPiece_spec(2) [OF res this None] inv show ?thesis by simp
next
  case (Some x)
  have "length (bins s) = 20" using ginv_bins_ok [OF inv] by (simp add: bins_ok_def)
  from FindPiece_spec(3) [OF res this Some] obtain bn where
    bn: "bn < 20" "x \<in> set (pieces_bin (bins s ! bn))" "a \<le> size_piece (pieces s ! x)"
      "FindPiece_found s a bn x = Inr (s', r)" by blast
  show ?thesis by (rule FindPiece_found_ginv(1) [OF inv bn])
qed

lemma DoAllocate_cases:
  assumes "DoAllocate f s n = Inr (s', p)" "n \<noteq> 0"
  obtains (hit) x where "FindPiece s (MemAlignedBytes n (alignment s)) = Inr (s', Some x)"
      "p = ptr (pieces s' ! x)"
  | (grow) s1 s2 x where "FindPiece s (MemAlignedBytes n (alignment s)) = Inr (s1, None)"
      "AllocateBlockToExtendTotalMem f s1 (MemAlignedBytes n (alignment s)) = Inr (s2, True)"
      "FindPiece s2 (MemAlignedBytes n (alignment s)) = Inr (s', Some x)"
      "p = ptr (pieces s' ! x)"
  using assms
  by (auto simp: DoAllocate_def Let_def bind_e_Inr split: option.splits if_splits)

lemma DoAllocate_ginv:
  assumes inv: "ginv {} s" and sub: "substrate_ok f" and res: "DoAllocate f s n = Inr (s', p)"
  shows "ginv {} s'"
proof (cases "n = 0")
  case True
  then show ?thesis using res inv by (simp add: DoAllocate_def)
next
  case False
  from res False show ?thesis
  proof (cases rule: DoAllocate_cases)
    case (hit x)
    then show ?thesis using FindPiece_ginv [OF inv] by blast
  next
    case (grow s1 s2 x)
    have g1: "ginv {} s1" using FindPiece_ginv [OF inv grow(1)] .
    have g2: "ginv {} s2" using AllocateBlockToExtendTotalMem_ginv(1) [OF g1 sub grow(2)] .
    show ?thesis using FindPiece_ginv [OF g2 grow(3)] .
  qed
qed

lemma ginv_init: "ginv {} CachingAllocator_init"
proof -
  have B: "length (bins CachingAllocator_init) = 20"
    "\<And>i. i < 20 \<Longrightarrow> pieces_bin (bins CachingAllocator_init ! i) = []"
    by (simp_all add: CachingAllocator_init_def kBinNumSize_def)
  have nl: "\<not> live CachingAllocator_init x" for x
    by (simp add: live_def CachingAllocator_init_def)
  show ?thesis
  proof (rule ginvI)
    show "alignment CachingAllocator_init = 512"
      by (simp add: CachingAllocator_init_def kCudaAlignSize_def)
    show "map_ok CachingAllocator_init" by (simp add: map_ok_def CachingAllocator_init_def)
    show "bins_ok CachingAllocator_init" using B by (simp add: bins_ok_def)
    show "recycle_ok CachingAllocator_init"
      unfolding recycle_ok_def by (rule exI [of _ "[]"]) (simp add: CachingAllocator_init_def)
  qed (simp_all add: nl)
qed

section \<open>The bytes of a growth step\<close>






section \<open>Running the allocator on concrete states\<close>

lemma bind_e_cong_weak: "m = m' \<Longrightarrow> bind_e m k = bind_e m' k" by simp

lemma case_prod_cong_weak: "p = q \<Longrightarrow> case_prod f p = case_prod f q" by simp

lemma RV_CHECK_cong_weak: "c = c' \<Longrightarrow> RV_CHECK c k = RV_CHECK c' k" by simp

lemmas run_cong = bind_e_cong_weak case_prod_cong_weak RV_CHECK_cong_weak let_weak_cong

lemma FindPiece_from_skip:
  "0 \<le> bn \<Longrightarrow> bn < 20 \<Longrightarrow> nat bn < length (bins s) \<Longrightarrow> pieces_bin (bins s ! nat bn) = [] \<Longrightarrow>
     FindPiece_from s a bn = FindPiece_from s a (bn + 1)"
  by (subst FindPiece_from.simps) (simp add: kBinNumSize_def bins_at_def)

lemma FindPiece_from_end: "FindPiece_from s a 20 = Inr (s, None)"
  by (subst FindPiece_from.simps) (simp add: kBinNumSize_def)

lemma FindPiece_from_hit:
  "0 \<le> bn \<Longrightarrow> bn < 20 \<Longrightarrow> nat bn < length (bins s) \<Longrightarrow> pieces_bin (bins s ! nat bn) = x # xs \<Longrightarrow>
   is_free (pieces s ! x) \<Longrightarrow> size_piece (pieces s ! x) mod alignment s = 0 \<Longrightarrow>
   a \<le> size_piece (pieces s ! x) \<Longrightarrow>
     FindPiece_from s a bn = FindPiece_found s a (nat bn) x"
  apply (subst FindPiece_from.simps)
  apply (simp add: kBinNumSize_def bins_at_def RV_CHECK_def IsAlignedSize_def)
  apply (cases "FindPiece_found s a (nat bn) x")
   apply simp
  apply (auto dest: FindPiece_found_Some split: option.splits prod.splits)
  done

lemma empty_bins_nth [simp]: "length empty_bins = 20"
  "i < 20 \<Longrightarrow> empty_bins ! i = \<lparr>size_bin = BinSize4BinNum (int i), pieces_bin = []\<rparr>"
  by (simp_all add: empty_bins_def)

lemma CachingAllocator_init_eq:
  "CachingAllocator_init = \<lparr>alignment = 512, total_memory_bytes = 0, mem_ptr2block = [],
      bins = empty_bins, pieces = [], ptr2piece = [], recycle_piece_list = None\<rparr>"
  by (simp add: CachingAllocator_init_def empty_bins_def kBinNumSize_def kCudaAlignSize_def)

lemma BinNum4BinSize_values:
  "BinNum4BinSize 512 = 0" "BinNum4BinSize 2097152 = 12" "BinNum4BinSize 2096640 = 11"
  "BinNum4BinSize 2096128 = 11" "BinNum4BinSize 0 = 0"
  using BinNum4BinSize_iff [of 0 512] BinNum4BinSize_iff [of 12 2097152]
    BinNum4BinSize_iff [of 11 2096640] BinNum4BinSize_iff [of 11 2096128]
    BinNum4BinSize_iff [of 0 0]
  by simp_all

lemmas run_simps = DoAllocate_def Deallocate_def MemAlignedBytes_def RoundUp_def wrap64_def
  FindPiece_def FindPiece_from_skip FindPiece_from_end FindPiece_from_hit bins_at_def
  FindPiece_found_def AllocatePiece_def upd_def InsertPiece2Bin_def MarkPiece_def RV_CHECK_def
  bind_e_def AllocateBlockToExtendTotalMem_def final_allocate_bytes_def Let_def kBinNumSize_def
  kInvalidBinNum_def new_Piece_def PieceCmp_def IsAlignedSize_def kPieceSplitThreshold_def
  RemovePieceFromBin_def MergeNeighbourFreePiece_def UnMarkPiece_def DeallocatePiece_def
  set_erase_def AList.delete_eq BinNum4BinSize_values


lemma run_1: "DoAllocate device_one_block CachingAllocator_init 100 = Inr (arena_1, 4096)"
  by (simp add: run_simps CachingAllocator_init_eq device_one_block_def arena_1_def
      cong: run_cong)

lemma run_2: "DoAllocate device_one_block arena_1 100 = Inr (arena_2, 4608)"
  by (simp add: run_simps device_one_block_def arena_1_def arena_2_def numeral_2_eq_2 [symmetric]
      cong: run_cong)

lemma run_3: "Deallocate arena_2 4096 = Inr arena_3"
  by (simp add: run_simps arena_2_def arena_3_def numeral_2_eq_2 [symmetric] cong: run_cong)

lemma run_4: "Deallocate arena_3 4608 = Inr arena_4"
  apply (simp add: run_simps arena_3_def arena_4_def numeral_2_eq_2 [symmetric] cong: run_cong)
  apply (rule nth_equalityI)
   apply simp
  apply (simp add: nth_list_update)
  done

lemma substrate_ok_device_one_block: "substrate_ok device_one_block"
  by (simp add: substrate_ok_def device_one_block_def)

lemma arena_inv_init: "arena_inv CachingAllocator_init"
  by (simp add: arena_inv_def ginv_init)

section \<open>Growth\<close>



section \<open>The search when nothing fits\<close>

lemma FindPiece_bin_miss:
  assumes "\<forall>x \<in> set xs. is_free (pieces s ! x) \<and> size_piece (pieces s ! x) mod alignment s = 0
             \<and> \<not> a \<le> size_piece (pieces s ! x)"
  shows "FindPiece_bin s a bn xs = Inr (s, None)"
  using assms by (induction xs) (simp_all add: RV_CHECK_def IsAlignedSize_def)

lemma FindPiece_from_miss:
  assumes len: "length (bins s) = 20"
    and ok: "\<forall>i. nat b0 \<le> i \<and> i < 20 \<longrightarrow> (\<forall>x \<in> set (pieces_bin (bins s ! i)).
               is_free (pieces s ! x) \<and> size_piece (pieces s ! x) mod alignment s = 0
               \<and> \<not> a \<le> size_piece (pieces s ! x))"
  shows "0 \<le> b \<Longrightarrow> b0 \<le> b \<Longrightarrow> FindPiece_from s a b = Inr (s, None)"
proof (induction "nat (20 - b)" arbitrary: b)
  case 0
  then have "\<not> b < kBinNumSize" by (simp add: kBinNumSize_def)
  then show ?case by (subst FindPiece_from.simps) simp
next
  case (Suc n)
  then have b: "b < 20" "0 \<le> b" "b0 \<le> b" by auto
  have "nat b0 \<le> nat b \<and> nat b < 20" using b by auto
  then have m: "FindPiece_bin s a (nat b) (pieces_bin (bins s ! nat b)) = Inr (s, None)"
    using ok by (intro FindPiece_bin_miss) blast
  have r: "FindPiece_from s a (b + 1) = Inr (s, None)"
    using Suc(2) b by (intro Suc(1)) auto
  show ?case
    using b len m r by (subst FindPiece_from.simps) (simp add: kBinNumSize_def bins_at_def)
qed

lemma set_drop_nth: "set (drop n xs) = {xs ! i | i. n \<le> i \<and> i < length xs}"
proof (intro equalityI subsetI)
  fix y assume "y \<in> set (drop n xs)"
  then obtain j where j: "j < length xs - n" "y = drop n xs ! j"
    by (auto simp: in_set_conv_nth)
  then have "y = xs ! (n + j)" "n \<le> n + j" "n + j < length xs" by auto
  then show "y \<in> {xs ! i | i. n \<le> i \<and> i < length xs}" by blast
next
  fix y assume "y \<in> {xs ! i | i. n \<le> i \<and> i < length xs}"
  then obtain i where i: "n \<le> i" "i < length xs" "y = xs ! i" by blast
  then have "drop n xs ! (i - n) = y" "i - n < length (drop n xs)" by auto
  then show "y \<in> set (drop n xs)" by (metis nth_mem)
qed

lemma scan_order_mem:
  assumes "length (bins s) = 20"
  shows "x \<in> set (scan_order s a) \<longleftrightarrow>
         (\<exists>i. nat (BinNum4BinSize a) \<le> i \<and> i < 20 \<and> x \<in> set (pieces_bin (bins s ! i)))"
  unfolding scan_order_def using assms by (auto simp: set_drop_nth)

lemma first_fit_None:
  assumes "first_fit s a = None" "length (bins s) = 20" "nat (BinNum4BinSize a) \<le> i" "i < 20"
    "x \<in> set (pieces_bin (bins s ! i))"
  shows "\<not> a \<le> size_piece (pieces s ! x)"
proof -
  have "x \<in> set (scan_order s a)"
    using assms(3-5) by (auto simp: scan_order_mem [OF assms(2)])
  then show ?thesis using assms(1) by (auto simp: first_fit_def find_None_iff)
qed

lemma FindPiece_miss:
  assumes inv: "ginv {} s" and ff: "first_fit s a = None"
  shows "FindPiece s a = Inr (s, None)"
proof -
  have len: "length (bins s) = 20" using ginv_bins_ok [OF inv] by (simp add: bins_ok_def)
  have al: "alignment s = 512" using inv by (rule ginv_alignment)
  have "\<forall>i. nat (BinNum4BinSize a) \<le> i \<and> i < 20 \<longrightarrow> (\<forall>x \<in> set (pieces_bin (bins s ! i)).
               is_free (pieces s ! x) \<and> size_piece (pieces s ! x) mod alignment s = 0
               \<and> \<not> a \<le> size_piece (pieces s ! x))"
  proof (intro allI impI ballI)
    fix i x assume i: "nat (BinNum4BinSize a) \<le> i \<and> i < 20"
      and x: "x \<in> set (pieces_bin (bins s ! i))"
    have lf: "live s x \<and> is_free (pieces s ! x)"
      using bins_okD [OF ginv_bins_ok [OF inv]] i x by blast
    then have "size_piece (pieces s ! x) mod 512 = 0"
      using link_okD [OF ginv_link [OF inv]] by blast
    moreover have "\<not> a \<le> size_piece (pieces s ! x)"
      using first_fit_None [OF ff len] i x by blast
    ultimately show "is_free (pieces s ! x) \<and> size_piece (pieces s ! x) mod alignment s = 0
               \<and> \<not> a \<le> size_piece (pieces s ! x)" using lf al by simp
  qed
  from FindPiece_from_miss [OF len this BinNum4BinSize_nonneg order_refl]
  show ?thesis by (simp add: FindPiece_def)
qed

lemma FindPiece_frame:
  assumes inv: "ginv {} s" and res: "FindPiece s a = Inr (s', r)"
  shows "total_memory_bytes s' = total_memory_bytes s" and "mem_ptr2block s' = mem_ptr2block s"
proof -
  have len: "length (bins s) = 20" using ginv_bins_ok [OF inv] by (simp add: bins_ok_def)
  have "total_memory_bytes s' = total_memory_bytes s \<and> mem_ptr2block s' = mem_ptr2block s"
  proof (cases r)
    case None
    then show ?thesis using FindPiece_spec(2) [OF res len] by simp
  next
    case (Some x)
    from FindPiece_spec(3) [OF res len Some] obtain bn where
      bn: "bn < 20" "x \<in> set (pieces_bin (bins s ! bn))" "a \<le> size_piece (pieces s ! x)"
        "FindPiece_found s a bn x = Inr (s', r)" by blast
    show ?thesis using FindPiece_found_ginv(11,12) [OF inv bn] by simp
  qed
  then show "total_memory_bytes s' = total_memory_bytes s" "mem_ptr2block s' = mem_ptr2block s"
    by simp_all
qed

lemma arena_inv_1: "arena_inv arena_1"
  unfolding arena_inv_def
  by (rule DoAllocate_ginv [OF ginv_init substrate_ok_device_one_block run_1])

lemma arena_inv_2: "arena_inv arena_2"
  unfolding arena_inv_def
  by (rule DoAllocate_ginv [OF arena_inv_1 [unfolded arena_inv_def]
        substrate_ok_device_one_block run_2])

lemma Deallocate_ginv:
  assumes "ginv {} s" "Deallocate s a = Inr s'"
  shows "ginv {} s'"
proof (cases "a = 0")
  case True
  then show ?thesis using assms by (simp add: Deallocate_def)
next
  case False
  then show ?thesis using Deallocate_effect [OF assms] by blast
qed

lemma arena_inv_3: "arena_inv arena_3"
  unfolding arena_inv_def
  by (rule Deallocate_ginv [OF arena_inv_2 [unfolded arena_inv_def] run_3])

lemma arena_inv_4: "arena_inv arena_4"
  unfolding arena_inv_def
  by (rule Deallocate_ginv [OF arena_inv_3 [unfolded arena_inv_def] run_4])

lemma first_fit_init: "first_fit CachingAllocator_init a = None"
proof -
  have "\<forall>b \<in> set (bins CachingAllocator_init). pieces_bin b = []"
    by (auto simp: CachingAllocator_init_def)
  then have "\<forall>b \<in> set (drop n (bins CachingAllocator_init)). pieces_bin b = []" for n
    by (meson in_set_dropD)
  then have "scan_order CachingAllocator_init a = []" by (simp add: scan_order_def)
  then show ?thesis by (simp add: first_fit_def)
qed

section \<open>Allocation when no free Piece fits\<close>

text \<open>
  C2. When \<^verbatim>\<open>DoAllocate\<close> is called with a size other than 0 and no bin from the size class
  of the aligned size upwards holds a Piece that is large enough, the search leaves the
  allocator as it was and \<^verbatim>\<open>DoAllocate\<close> is one call of \<^verbatim>\<open>AllocateBlockToExtendTotalMem\<close>
  followed, when that call reports success, by one more search, whose failure is a failed
  check; when the growth reports failure (the 64-bit byte count is below the aligned size, or
  the device returns null) the outcome is a failed check. A growth that succeeds registers
  one free Piece without neighbours that spans the whole device allocation. A call that
  returns has added the bytes of exactly one growth step and at most one Block.
\<close>

theorem DoAllocate_growth_once:
  assumes "sz \<noteq> 0" and "arena_inv s" and "substrate_ok cudaMalloc"
    and "first_fit s (MemAlignedBytes sz 512) = None"
  shows "FindPiece s (MemAlignedBytes sz 512) = Inr (s, None)
    \<and> DoAllocate cudaMalloc s sz =
        (case AllocateBlockToExtendTotalMem cudaMalloc s (MemAlignedBytes sz 512) of
           Inl e \<Rightarrow> Inl e
         | Inr (s2, ok) \<Rightarrow>
             if ok
             then (case FindPiece s2 (MemAlignedBytes sz 512) of
                     Inl e \<Rightarrow> Inl e
                   | Inr (s3, None) \<Rightarrow> Inl CheckFailed
                   | Inr (s3, Some piece) \<Rightarrow> Inr (s3, ptr (pieces s3 ! piece)))
             else Inl CheckFailed)
    \<and> (final_allocate_bytes 512 (MemAlignedBytes sz 512) < MemAlignedBytes sz 512
         \<or> cudaMalloc (final_allocate_bytes 512 (MemAlignedBytes sz 512)) = 0
       \<longrightarrow> DoAllocate cudaMalloc s sz = Inl CheckFailed)
    \<and> (\<forall>s2. AllocateBlockToExtendTotalMem cudaMalloc s (MemAlignedBytes sz 512) = Inr (s2, True)
         \<longrightarrow> (\<exists>z. \<not> live s z \<and> live s2 z \<and> is_free (pieces s2 ! z)
                \<and> size_piece (pieces s2 ! z) = final_allocate_bytes 512 (MemAlignedBytes sz 512)
                \<and> ptr (pieces s2 ! z) = cudaMalloc (final_allocate_bytes 512 (MemAlignedBytes sz 512))
                \<and> prev (pieces s2 ! z) = None \<and> next (pieces s2 ! z) = None
                \<and> mem_ptr2block s2 =
                    (if map_of (mem_ptr2block s)
                          (cudaMalloc (final_allocate_bytes 512 (MemAlignedBytes sz 512))) = None
                     then (cudaMalloc (final_allocate_bytes 512 (MemAlignedBytes sz 512)),
                           \<lparr>size_block = final_allocate_bytes 512 (MemAlignedBytes sz 512),
                            ptr_block = cudaMalloc (final_allocate_bytes 512 (MemAlignedBytes sz 512)),
                            start_piece = Some z\<rparr>) # mem_ptr2block s
                     else mem_ptr2block s)))
    \<and> (\<forall>s' p. DoAllocate cudaMalloc s sz = Inr (s', p)
         \<longrightarrow> cudaMalloc (final_allocate_bytes 512 (MemAlignedBytes sz 512)) \<noteq> 0
           \<and> total_memory_bytes s' =
               wrap64 (total_memory_bytes s + final_allocate_bytes 512 (MemAlignedBytes sz 512))
           \<and> length (mem_ptr2block s') \<le> length (mem_ptr2block s) + 1
           \<and> arena_inv s')"
proof -
  let ?a = "MemAlignedBytes sz 512"
  let ?n = "final_allocate_bytes 512 ?a"
  have inv: "ginv {} s" using assms(2) by (simp add: arena_inv_def)
  have al: "alignment s = 512" using inv by (rule ginv_alignment)
  have miss: "FindPiece s ?a = Inr (s, None)" using FindPiece_miss [OF inv assms(4)] .
  have unf: "DoAllocate cudaMalloc s sz =
        (case AllocateBlockToExtendTotalMem cudaMalloc s ?a of
           Inl e \<Rightarrow> Inl e
         | Inr (s2, ok) \<Rightarrow>
             if ok
             then (case FindPiece s2 ?a of
                     Inl e \<Rightarrow> Inl e
                   | Inr (s3, None) \<Rightarrow> Inl CheckFailed
                   | Inr (s3, Some piece) \<Rightarrow> Inr (s3, ptr (pieces s3 ! piece)))
             else Inl CheckFailed)"
    using assms(1) miss
    by (simp add: DoAllocate_def al bind_e_def split: sum.splits prod.splits option.splits)
  have fail: "DoAllocate cudaMalloc s sz = Inl CheckFailed" if "?n < ?a \<or> cudaMalloc ?n = 0"
  proof -
    have "AllocateBlockToExtendTotalMem cudaMalloc s ?a = Inr (s, False)"
      using that by (auto simp: AllocateBlockToExtendTotalMem_def al Let_def)
    then show ?thesis by (simp add: unf)
  qed
  have grow: "\<exists>z. \<not> live s z \<and> live s2 z \<and> is_free (pieces s2 ! z)
                \<and> size_piece (pieces s2 ! z) = ?n \<and> ptr (pieces s2 ! z) = cudaMalloc ?n
                \<and> prev (pieces s2 ! z) = None \<and> next (pieces s2 ! z) = None
                \<and> mem_ptr2block s2 =
                    (if map_of (mem_ptr2block s) (cudaMalloc ?n) = None
                     then (cudaMalloc ?n, \<lparr>size_block = ?n, ptr_block = cudaMalloc ?n,
                            start_piece = Some z\<rparr>) # mem_ptr2block s
                     else mem_ptr2block s)"
    if g: "AllocateBlockToExtendTotalMem cudaMalloc s ?a = Inr (s2, True)" for s2
    using AllocateBlockToExtendTotalMem_ginv(4) [OF inv assms(3) g] by auto
  have succ: "cudaMalloc ?n \<noteq> 0
           \<and> total_memory_bytes s' = wrap64 (total_memory_bytes s + ?n)
           \<and> length (mem_ptr2block s') \<le> length (mem_ptr2block s) + 1
           \<and> arena_inv s'"
    if d: "DoAllocate cudaMalloc s sz = Inr (s', p)" for s' p
  proof -
    from d [unfolded unf] obtain s2 x where
      g: "AllocateBlockToExtendTotalMem cudaMalloc s ?a = Inr (s2, True)"
      and f: "FindPiece s2 ?a = Inr (s', Some x)"
      by (auto split: sum.splits prod.splits option.splits if_splits)
    note A = AllocateBlockToExtendTotalMem_ginv [OF inv assms(3) g]
    note F = FindPiece_frame [OF A(1) f]
    have "cudaMalloc ?n \<noteq> 0" using A(3) by simp
    moreover have "total_memory_bytes s' = wrap64 (total_memory_bytes s + ?n)"
      using A(4) F(1) by simp
    moreover have "length (mem_ptr2block s2) \<le> length (mem_ptr2block s) + 1"
      using grow [OF g] by (auto split: if_splits)
    moreover have "arena_inv s'"
      unfolding arena_inv_def by (rule DoAllocate_ginv [OF inv assms(3) d])
    ultimately show ?thesis using F(2) by simp
  qed
  show ?thesis using miss unf fail grow succ by blast
qed

theorem DoAllocate_growth_once_witness:
  "arena_inv CachingAllocator_init \<and> substrate_ok device_one_block \<and> substrate_ok (\<lambda>n. 0)
   \<and> first_fit CachingAllocator_init (MemAlignedBytes 100 512) = None
   \<and> FindPiece CachingAllocator_init (MemAlignedBytes 100 512) = Inr (CachingAllocator_init, None)
   \<and> DoAllocate device_one_block CachingAllocator_init 100 = Inr (arena_1, 4096)
   \<and> total_memory_bytes arena_1 =
       wrap64 (total_memory_bytes CachingAllocator_init
               + final_allocate_bytes 512 (MemAlignedBytes 100 512))
   \<and> length (mem_ptr2block arena_1) \<le> length (mem_ptr2block CachingAllocator_init) + 1
   \<and> arena_inv arena_1
   \<and> DoAllocate (\<lambda>n. 0) CachingAllocator_init 100 = Inl CheckFailed"
proof -
  have n: "(100::nat) \<noteq> 0" by simp
  have s0: "substrate_ok (\<lambda>n. 0)" by (simp add: substrate_ok_def)
  note ff = first_fit_init [of "MemAlignedBytes 100 512"]
  note T1 = DoAllocate_growth_once [OF n arena_inv_init substrate_ok_device_one_block ff]
  note T2 = DoAllocate_growth_once [OF n arena_inv_init s0 ff]
  note m = T1 [THEN conjunct1]
  note ok = T1 [THEN conjunct2, THEN conjunct2, THEN conjunct2, THEN conjunct2, rule_format,
      OF run_1]
  note c = T2 [THEN conjunct2, THEN conjunct2, THEN conjunct1, rule_format]
  have "DoAllocate (\<lambda>n. 0) CachingAllocator_init 100 = Inl CheckFailed"
    by (rule c) simp
  then show ?thesis
    using arena_inv_init substrate_ok_device_one_block s0 ff m run_1 ok by simp
qed

section \<open>Coalescing\<close>

lemma ginv_no_adjacent_free: "ginv {} s \<Longrightarrow> no_adjacent_free s"
  unfolding no_adjacent_free_def using ginv_adj [of "{}" s] by blast

lemma free_next_lower:
  assumes inv: "ginv {} s" and lx: "live s x" and fn: "free_next s x = Some n"
  shows "ptr (pieces s ! x) < ptr (pieces s ! n)"
proof -
  from fn have "next (pieces s ! x) = Some n"
    by (auto simp: free_next_def split: option.splits if_splits)
  from link_ok_next [OF ginv_link [OF inv lx] this] show ?thesis by simp
qed

lemma free_prev_lower:
  assumes inv: "ginv {} s" and lx: "live s x" and fp: "free_prev s x = Some q"
  shows "ptr (pieces s ! q) < ptr (pieces s ! x)"
proof -
  from fp have "prev (pieces s ! x) = Some q"
    by (auto simp: free_prev_def split: option.splits if_splits)
  from link_ok_prev [OF ginv_link [OF inv lx] this]
  have q: "live s q" "next (pieces s ! q) = Some x" by simp_all
  from link_ok_next [OF ginv_link [OF inv q(1)] q(2)] show ?thesis by simp
qed

text \<open>
  C3. The invariant of the arena holds of a fresh allocator and is kept by \<^verbatim>\<open>DoAllocate\<close> and
  by \<^verbatim>\<open>Deallocate\<close>, and under it no live Piece and its physical successor are both free.
  \<^verbatim>\<open>Deallocate\<close> of a non-null address that returns has freed the Piece \<open>x\<close> at that address:
  a free successor and then a free predecessor are merged with it, the absorbed descriptors
  leave the address map, the Piece of the lower address survives each merge, and the one
  survivor holds the sum of the sizes and is filed in the bin of the size class of that sum.
\<close>

theorem Deallocate_coalesces:
  "arena_inv CachingAllocator_init
   \<and> (arena_inv s \<longrightarrow> no_adjacent_free s)
   \<and> (arena_inv s \<and> substrate_ok cudaMalloc \<and> DoAllocate cudaMalloc s sz = Inr (s1, p)
        \<longrightarrow> arena_inv s1 \<and> no_adjacent_free s1)
   \<and> (arena_inv s \<and> Deallocate s a = Inr s' \<longrightarrow>
        arena_inv s' \<and> no_adjacent_free s' \<and>
        (a \<noteq> 0 \<longrightarrow>
          (\<exists>x. map_of (ptr2piece s) a = Some x \<and> live s x \<and> \<not> is_free (pieces s ! x)
             \<and> live s' (survivor s x) \<and> is_free (pieces s' ! survivor s x)
             \<and> size_piece (pieces s' ! survivor s x) = merged_size s x
             \<and> ptr (pieces s' ! survivor s x) = ptr (pieces s ! survivor s x)
             \<and> (\<forall>n. free_next s x = Some n \<longrightarrow>
                    \<not> live s' n \<and> ptr (pieces s ! x) < ptr (pieces s ! n))
             \<and> (\<forall>q. free_prev s x = Some q \<longrightarrow>
                    \<not> live s' x \<and> ptr (pieces s ! q) < ptr (pieces s ! x))
             \<and> bin_num (pieces s' ! survivor s x) = BinNum4BinSize (merged_size s x)
             \<and> survivor s x \<in> set (pieces_bin (bins s' ! nat (BinNum4BinSize (merged_size s x))))
             \<and> (\<forall>y. live s' y \<longleftrightarrow>
                    live s y \<and> Some y \<noteq> free_next s x \<and> (y = x \<longrightarrow> free_prev s x = None)))))"
proof -
  have c1: "arena_inv CachingAllocator_init" by (simp add: arena_inv_def ginv_init)
  have c2: "no_adjacent_free s" if "arena_inv s" for s
    using that by (simp add: arena_inv_def ginv_no_adjacent_free)
  have c3: "arena_inv s1 \<and> no_adjacent_free s1"
    if "arena_inv s \<and> substrate_ok cudaMalloc \<and> DoAllocate cudaMalloc s sz = Inr (s1, p)"
  proof -
    have "ginv {} s1" using that DoAllocate_ginv [of s cudaMalloc sz s1 p]
      by (simp add: arena_inv_def)
    then show ?thesis by (simp add: arena_inv_def ginv_no_adjacent_free)
  qed
  have c4: "arena_inv s' \<and> no_adjacent_free s' \<and>
        (a \<noteq> 0 \<longrightarrow>
          (\<exists>x. map_of (ptr2piece s) a = Some x \<and> live s x \<and> \<not> is_free (pieces s ! x)
             \<and> live s' (survivor s x) \<and> is_free (pieces s' ! survivor s x)
             \<and> size_piece (pieces s' ! survivor s x) = merged_size s x
             \<and> ptr (pieces s' ! survivor s x) = ptr (pieces s ! survivor s x)
             \<and> (\<forall>n. free_next s x = Some n \<longrightarrow>
                    \<not> live s' n \<and> ptr (pieces s ! x) < ptr (pieces s ! n))
             \<and> (\<forall>q. free_prev s x = Some q \<longrightarrow>
                    \<not> live s' x \<and> ptr (pieces s ! q) < ptr (pieces s ! x))
             \<and> bin_num (pieces s' ! survivor s x) = BinNum4BinSize (merged_size s x)
             \<and> survivor s x \<in> set (pieces_bin (bins s' ! nat (BinNum4BinSize (merged_size s x))))
             \<and> (\<forall>y. live s' y \<longleftrightarrow>
                    live s y \<and> Some y \<noteq> free_next s x \<and> (y = x \<longrightarrow> free_prev s x = None))))"
    if h: "arena_inv s \<and> Deallocate s a = Inr s'"
  proof -
    have inv: "ginv {} s" and de: "Deallocate s a = Inr s'" using h by (simp_all add: arena_inv_def)
    have inv': "ginv {} s'" using Deallocate_ginv [OF inv de] .
    have "\<exists>x. map_of (ptr2piece s) a = Some x \<and> live s x \<and> \<not> is_free (pieces s ! x)
             \<and> live s' (survivor s x) \<and> is_free (pieces s' ! survivor s x)
             \<and> size_piece (pieces s' ! survivor s x) = merged_size s x
             \<and> ptr (pieces s' ! survivor s x) = ptr (pieces s ! survivor s x)
             \<and> (\<forall>n. free_next s x = Some n \<longrightarrow>
                    \<not> live s' n \<and> ptr (pieces s ! x) < ptr (pieces s ! n))
             \<and> (\<forall>q. free_prev s x = Some q \<longrightarrow>
                    \<not> live s' x \<and> ptr (pieces s ! q) < ptr (pieces s ! x))
             \<and> bin_num (pieces s' ! survivor s x) = BinNum4BinSize (merged_size s x)
             \<and> survivor s x \<in> set (pieces_bin (bins s' ! nat (BinNum4BinSize (merged_size s x))))
             \<and> (\<forall>y. live s' y \<longleftrightarrow>
                    live s y \<and> Some y \<noteq> free_next s x \<and> (y = x \<longrightarrow> free_prev s x = None))"
      if a0: "a \<noteq> 0"
    proof -
      from Deallocate_effect [OF inv de a0] obtain x where
        x: "map_of (ptr2piece s) a = Some x" "live s x" "\<not> is_free (pieces s ! x)"
          "live s' (survivor s x)" "is_free (pieces s' ! survivor s x)"
          "ptr (pieces s' ! survivor s x) = ptr (pieces s ! survivor s x)"
          "size_piece (pieces s' ! survivor s x) = merged_size s x"
          and lv: "\<forall>y. live s' y \<longleftrightarrow>
                    live s y \<and> Some y \<noteq> free_next s x \<and> (y = x \<longrightarrow> free_prev s x = None)"
        by blast
      have fl: "filed s' (survivor s x)" using ginv_filed [OF inv' x(4)] by simp
      then have f1: "bin_num (pieces s' ! survivor s x) = BinNum4BinSize (merged_size s x)"
        and f2: "survivor s x \<in> set (pieces_bin (bins s' ! nat (BinNum4BinSize (merged_size s x))))"
        using x(5,7) by (auto simp: filed_def)
      have n: "\<not> live s' n \<and> ptr (pieces s ! x) < ptr (pieces s ! n)"
        if "free_next s x = Some n" for n
        using lv that free_next_lower [OF inv x(2) that] by auto
      have q: "\<not> live s' x \<and> ptr (pieces s ! q) < ptr (pieces s ! x)"
        if "free_prev s x = Some q" for q
        using lv that free_prev_lower [OF inv x(2) that] by auto
      show ?thesis
        using x f1 f2 n q lv by blast
    qed
    then show ?thesis using inv' by (simp add: arena_inv_def ginv_no_adjacent_free)
  qed
  show ?thesis using c1 c2 c3 c4 by blast
qed

theorem Deallocate_coalesces_witness:
  "arena_inv arena_3 \<and> Deallocate arena_3 4608 = Inr arena_4
   \<and> arena_inv arena_4 \<and> no_adjacent_free arena_4
   \<and> map_of (ptr2piece arena_3) 4608 = Some 1
   \<and> free_next arena_3 1 = Some 2 \<and> free_prev arena_3 1 = Some 0
   \<and> survivor arena_3 1 = 0 \<and> merged_size arena_3 1 = 2097152
   \<and> live arena_4 0 \<and> \<not> live arena_4 1 \<and> \<not> live arena_4 2
   \<and> is_free (pieces arena_4 ! 0) \<and> size_piece (pieces arena_4 ! 0) = 2097152
   \<and> ptr (pieces arena_3 ! 0) < ptr (pieces arena_3 ! 1)
   \<and> ptr (pieces arena_3 ! 1) < ptr (pieces arena_3 ! 2)
   \<and> bin_num (pieces arena_4 ! 0) = BinNum4BinSize 2097152
   \<and> 0 \<in> set (pieces_bin (bins arena_4 ! nat (BinNum4BinSize 2097152)))
   \<and> arena_inv arena_1 \<and> substrate_ok device_one_block
   \<and> DoAllocate device_one_block arena_1 100 = Inr (arena_2, 4608)
   \<and> arena_inv arena_2 \<and> no_adjacent_free arena_2"
proof -
  note T = Deallocate_coalesces [where s = arena_3 and a = 4608 and s' = arena_4]
  note U = Deallocate_coalesces [where s = arena_1 and cudaMalloc = device_one_block
      and sz = 100 and ?s1.0 = arena_2 and p = 4608]
  have d: "arena_inv arena_4 \<and> no_adjacent_free arena_4"
    using T [THEN conjunct2, THEN conjunct2, THEN conjunct2] arena_inv_3 run_4 by blast
  have a: "arena_inv arena_2 \<and> no_adjacent_free arena_2"
    using U [THEN conjunct2, THEN conjunct2, THEN conjunct1] arena_inv_1
      substrate_ok_device_one_block run_2 by blast
  have e: "map_of (ptr2piece arena_3) 4608 = Some 1"
    "free_next arena_3 1 = Some 2" "free_prev arena_3 1 = Some 0"
    "survivor arena_3 1 = 0" "merged_size arena_3 1 = 2097152"
    "ptr (pieces arena_3 ! 0) < ptr (pieces arena_3 ! 1)"
    "ptr (pieces arena_3 ! 1) < ptr (pieces arena_3 ! 2)"
    by (simp_all add: arena_3_def free_next_def free_prev_def survivor_def merged_size_def)
  have l: "live arena_4 0" "\<not> live arena_4 1" "\<not> live arena_4 2"
    "is_free (pieces arena_4 ! 0)" "size_piece (pieces arena_4 ! 0) = 2097152"
    "bin_num (pieces arena_4 ! 0) = BinNum4BinSize 2097152"
    "0 \<in> set (pieces_bin (bins arena_4 ! nat (BinNum4BinSize 2097152)))"
    by (simp_all add: live_def arena_4_def BinNum4BinSize_values)
  show ?thesis
    using d a e l arena_inv_3 run_4 arena_inv_1 substrate_ok_device_one_block run_2 by simp
qed

section \<open>The public operations on degenerate inputs\<close>

text \<open>
  C9. \<^verbatim>\<open>DoAllocate(0)\<close> returns the null pointer and leaves the allocator as it was:
  bins, pieces, both maps, the recycle list and the byte count.
\<close>

theorem DoAllocate_zero:
  "DoAllocate cudaMalloc s 0 = Inr (s, 0)"
  by (simp add: DoAllocate_def)

theorem DoAllocate_zero_witness:
  "DoAllocate (\<lambda>n. 4096) CachingAllocator_init 0 = Inr (CachingAllocator_init, 0)"
  using DoAllocate_zero [of "\<lambda>n. 4096" CachingAllocator_init] by simp

text \<open>
  C1. \<^verbatim>\<open>Deallocate\<close> of a non-null address that is not a key of \<^verbatim>\<open>ptr2piece_\<close>
  dereferences the end iterator that \<^verbatim>\<open>find\<close> returned: no check stands between the
  lookup and \<^verbatim>\<open>it->second\<close>. On a fresh allocator, address 4096 ends there and not in
  a failed check.
\<close>

theorem Deallocate_unknown_address:
  "Deallocate CachingAllocator_init 4096 = Inl InvalidDeref
   \<and> Deallocate CachingAllocator_init 4096 \<noteq> Inl CheckFailed"
  by (simp add: Deallocate_def CachingAllocator_init_def)

end
